theory Spec2Isabelle
  imports Complex_Main
begin

section \<open>Python numbers\<close>

text \<open>
  The combat engine of \<^verbatim>\<open>dashboard.py\<close> computes with Python \<^verbatim>\<open>int\<close> (unbounded,
  modelled by \<^typ>\<open>int\<close>) and Python \<^verbatim>\<open>float\<close> (IEEE 754 binary64 with
  round-to-nearest, ties-to-even). A float is modelled by its exact rational value, or one
  of the three special values; every arithmetic operation computes the exact rational
  result and rounds it to the nearest binary64 value. The sign of a zero is not
  represented: no operation of the engine can observe it (there is no division by a float
  zero, and comparisons treat both zeros alike).
\<close>

datatype pyfloat = Finite rat | PosInf | NegInf | NaN

datatype error = ZeroDivisionError | OverflowError | ValueError | TypeError

text \<open>\<^verbatim>\<open>int.bit_length()\<close> on a positive integer.\<close>

function bit_length :: "int \<Rightarrow> nat" where
  "bit_length n = (if n \<le> 0 then 0 else Suc (bit_length (n div 2)))"
  by pat_completeness auto
termination
  by (relation "measure nat") auto

declare bit_length.simps [simp del]

definition pow2 :: "int \<Rightarrow> rat" where
  "pow2 k = (if 0 \<le> k then 2 ^ nat k else 1 / 2 ^ nat (- k))"

text \<open>
  The binary exponent of a positive rational: \<open>pow2 (ilog2 x) \<le> x < pow2 (ilog2 x + 1)\<close>.
  Below 1 it is read off the least integer that is not below \<open>1 / x\<close>.
\<close>

definition ilog2 :: "rat \<Rightarrow> int" where
  "ilog2 x =
     (if 1 \<le> x then int (bit_length \<lfloor>x\<rfloor>) - 1
      else - int (bit_length (- \<lfloor>- (1 / x)\<rfloor> - 1)))"

definition round_half_even :: "rat \<Rightarrow> int" where
  "round_half_even x =
     (let f = \<lfloor>x\<rfloor>; d = x - of_int f
      in if d < 1 / 2 then f
         else if 1 / 2 < d then f + 1
         else if even f then f else f + 1)"

text \<open>
  Rounding of an exact result to binary64: a significand \<open>m\<close> of at most 53 bits at the
  exponent \<open>q\<close> of the last place, which is at least \<open>-1074\<close> (subnormals). The rounded
  magnitude \<open>m * pow2 q\<close> reaches \<open>2 ^ 1024\<close>, and the result is an infinity, when the
  binary exponent is above 1023 or the significand is rounded up to \<open>2 ^ 53\<close> at
  exponent 1023.
\<close>

definition round_double :: "rat \<Rightarrow> pyfloat" where
  "round_double x =
     (if x = 0 then Finite 0
      else
        let a = \<bar>x\<bar>;
            e = ilog2 a;
            q = max (e - 52) (- 1074);
            m = round_half_even (a / pow2 q)
        in if 1023 < e \<or> (e = 1023 \<and> 2 ^ 53 \<le> m) then (if 0 < x then PosInf else NegInf)
           else Finite (if 0 < x then of_int m * pow2 q else - (of_int m * pow2 q)))"

text \<open>Conversion of an \<^verbatim>\<open>int\<close> operand of a float operation (\<^verbatim>\<open>PyLong_AsDouble\<close>).\<close>

definition int_to_float :: "int \<Rightarrow> error + pyfloat" where
  "int_to_float n =
     (case round_double (of_int n) of
        Finite y \<Rightarrow> Inr (Finite y)
      | _ \<Rightarrow> Inl OverflowError)"

text \<open>\<^verbatim>\<open>a / b\<close> on two \<^verbatim>\<open>int\<close>s: the correctly rounded quotient.\<close>

definition int_truediv :: "int \<Rightarrow> int \<Rightarrow> error + pyfloat" where
  "int_truediv a b =
     (if b = 0 then Inl ZeroDivisionError
      else case round_double (of_int a / of_int b) of
             Finite y \<Rightarrow> Inr (Finite y)
           | _ \<Rightarrow> Inl OverflowError)"

fun float_mul :: "pyfloat \<Rightarrow> pyfloat \<Rightarrow> pyfloat" where
  "float_mul (Finite a) (Finite b) = round_double (a * b)"
| "float_mul NaN _ = NaN"
| "float_mul _ NaN = NaN"
| "float_mul (Finite a) PosInf = (if a = 0 then NaN else if 0 < a then PosInf else NegInf)"
| "float_mul (Finite a) NegInf = (if a = 0 then NaN else if 0 < a then NegInf else PosInf)"
| "float_mul PosInf (Finite b) = (if b = 0 then NaN else if 0 < b then PosInf else NegInf)"
| "float_mul NegInf (Finite b) = (if b = 0 then NaN else if 0 < b then NegInf else PosInf)"
| "float_mul PosInf PosInf = PosInf"
| "float_mul PosInf NegInf = NegInf"
| "float_mul NegInf PosInf = NegInf"
| "float_mul NegInf NegInf = PosInf"

fun float_add :: "pyfloat \<Rightarrow> pyfloat \<Rightarrow> pyfloat" where
  "float_add (Finite a) (Finite b) = round_double (a + b)"
| "float_add NaN _ = NaN"
| "float_add _ NaN = NaN"
| "float_add PosInf NegInf = NaN"
| "float_add NegInf PosInf = NaN"
| "float_add PosInf _ = PosInf"
| "float_add NegInf _ = NegInf"
| "float_add (Finite a) PosInf = PosInf"
| "float_add (Finite a) NegInf = NegInf"

text \<open>\<^verbatim>\<open>x / y\<close> on floats raises on a zero divisor.\<close>

fun float_div :: "pyfloat \<Rightarrow> pyfloat \<Rightarrow> error + pyfloat" where
  "float_div x (Finite b) =
     (if b = 0 then Inl ZeroDivisionError
      else case x of
             Finite a \<Rightarrow> Inr (round_double (a / b))
           | PosInf \<Rightarrow> Inr (if 0 < b then PosInf else NegInf)
           | NegInf \<Rightarrow> Inr (if 0 < b then NegInf else PosInf)
           | NaN \<Rightarrow> Inr NaN)"
| "float_div x NaN = Inr NaN"
| "float_div (Finite a) _ = Inr (Finite 0)"
| "float_div _ _ = Inr NaN"

text \<open>Comparisons; every comparison with \<open>NaN\<close> is false, and \<^verbatim>\<open>!=\<close> is the negation of \<^verbatim>\<open>==\<close>.\<close>

fun float_lt :: "pyfloat \<Rightarrow> pyfloat \<Rightarrow> bool" where
  "float_lt (Finite a) (Finite b) = (a < b)"
| "float_lt NaN _ = False"
| "float_lt _ NaN = False"
| "float_lt NegInf NegInf = False"
| "float_lt NegInf _ = True"
| "float_lt PosInf _ = False"
| "float_lt (Finite a) PosInf = True"
| "float_lt (Finite a) NegInf = False"

fun float_eq :: "pyfloat \<Rightarrow> pyfloat \<Rightarrow> bool" where
  "float_eq (Finite a) (Finite b) = (a = b)"
| "float_eq PosInf PosInf = True"
| "float_eq NegInf NegInf = True"
| "float_eq _ _ = False"

definition float_le :: "pyfloat \<Rightarrow> pyfloat \<Rightarrow> bool" where
  "float_le x y = (float_lt x y \<or> float_eq x y)"

definition float_ge :: "pyfloat \<Rightarrow> pyfloat \<Rightarrow> bool" where
  "float_ge x y = float_le y x"

text \<open>\<^verbatim>\<open>int(x)\<close> truncates towards zero and raises on the special values.\<close>

definition py_int :: "pyfloat \<Rightarrow> error + int" where
  "py_int x =
     (case x of
        Finite a \<Rightarrow> Inr (if 0 \<le> a then \<lfloor>a\<rfloor> else - \<lfloor>- a\<rfloor>)
      | NaN \<Rightarrow> Inl ValueError
      | _ \<Rightarrow> Inl OverflowError)"

section \<open>Records of the catalog\<close>

record stats =
  hp :: int
  attack :: int
  defense :: int
  special_attack :: int
  special_defense :: int
  speed :: int

text \<open>The dictionary built by \<^verbatim>\<open>parse_pokemon\<close>.\<close>

record pokemon =
  name :: string
  sprite :: string
  types :: "string list"
  stats :: stats
  moves :: "string list"

text \<open>
  The fields of a move record that the engine reads: \<^verbatim>\<open>name\<close>, \<^verbatim>\<open>power\<close> and
  \<^verbatim>\<open>accuracy\<close> (each an integer or \<^verbatim>\<open>None\<close>), \<^verbatim>\<open>type.name\<close> and
  \<^verbatim>\<open>damage_class.name\<close>.
\<close>

record move_data =
  move_name :: string
  move_power :: "int option"
  accuracy :: "int option"
  move_type :: string
  damage_class :: string

text \<open>The three name lists read from \<^verbatim>\<open>damage_relations\<close> of a type record.\<close>

record type_data =
  double_damage_to :: "string list"
  half_damage_to :: "string list"
  no_damage_to :: "string list"

section \<open>Type effectiveness\<close>

text \<open>
  \<^verbatim>\<open>fetch_type\<close> is the remote catalog; it is a parameter \<open>fetch_type\<close> of the model,
  \<open>None\<close> standing for every failed lookup.
\<close>

definition type_step :: "type_data \<Rightarrow> pyfloat \<Rightarrow> string \<Rightarrow> pyfloat" where
  "type_step td effectiveness d_type =
     (if d_type \<in> set (double_damage_to td) then float_mul effectiveness (Finite 2)
      else if d_type \<in> set (half_damage_to td) then float_mul effectiveness (Finite (1 / 2))
      else if d_type \<in> set (no_damage_to td) then float_mul effectiveness (Finite 0)
      else effectiveness)"

definition get_type_effectiveness ::
  "(string \<Rightarrow> type_data option) \<Rightarrow> string \<Rightarrow> string list \<Rightarrow> pyfloat" where
  "get_type_effectiveness fetch_type mv_type defender_types =
     (case fetch_type mv_type of
        None \<Rightarrow> Finite 1
      | Some td \<Rightarrow> foldl (type_step td) (Finite 1) defender_types)"

definition effectiveness_label :: "pyfloat \<Rightarrow> string" where
  "effectiveness_label eff =
     (if float_eq eff (Finite 0) then ''No effect!''
      else if float_ge eff (Finite 4) then ''It's ultra effective!''
      else if float_ge eff (Finite 2) then ''It's super effective!''
      else if float_le eff (Finite (1 / 4)) then ''It's barely effective'' @ [CHR 0xE2, CHR 0x80, CHR 0xA6]
      else if float_lt eff (Finite 1) then ''It's not very effective'' @ [CHR 0xE2, CHR 0x80, CHR 0xA6]
      else [])"

section \<open>Damage of one attack\<close>

definition LEVEL :: int where
  "LEVEL = 50"

text \<open>Sequencing of computations that may raise.\<close>

definition pybind :: "error + 'a \<Rightarrow> ('a \<Rightarrow> error + 'b) \<Rightarrow> error + 'b" where
  "pybind m f = (case m of Inl e \<Rightarrow> Inl e | Inr v \<Rightarrow> f v)"

text \<open>\<^verbatim>\<open>move_data["accuracy"] if move_data["accuracy"] else 100\<close>: \<^verbatim>\<open>None\<close> and \<^verbatim>\<open>0\<close> are falsy.\<close>

definition resolve_accuracy :: "int option \<Rightarrow> int" where
  "resolve_accuracy acc = (case acc of None \<Rightarrow> 100 | Some a \<Rightarrow> if a = 0 then 100 else a)"

text \<open>
  The float inside \<^verbatim>\<open>int(...)\<close>:
  \<^verbatim>\<open>((2 * LEVEL / 5 + 2) * power * (atk / dfn) / 50 + 2) * effectiveness\<close>,
  evaluated from left to right as Python does. A \<^verbatim>\<open>None\<close> power makes the first
  multiplication raise \<^verbatim>\<open>TypeError\<close>.
\<close>

definition damage_value :: "int option \<Rightarrow> int \<Rightarrow> int \<Rightarrow> pyfloat \<Rightarrow> error + pyfloat" where
  "damage_value pw atk dfn effectiveness =
     pybind (int_truediv (2 * LEVEL) 5) (\<lambda>l1.
     pybind (int_to_float 2) (\<lambda>two.
     let l2 = float_add l1 two in
     (case pw of
        None \<Rightarrow> Inl TypeError
      | Some p \<Rightarrow>
          pybind (int_to_float p) (\<lambda>pf.
          let t1 = float_mul l2 pf in
          pybind (int_truediv atk dfn) (\<lambda>ratio.
          let t2 = float_mul t1 ratio in
          pybind (int_to_float 50) (\<lambda>fifty.
          pybind (float_div t2 fifty) (\<lambda>t3.
          let t4 = float_add t3 two in
          Inr (float_mul t4 effectiveness))))))))"

text \<open>
  The accuracy check \<^verbatim>\<open>random.random() < (accuracy / 100)\<close>, \<open>r\<close> being the value
  that \<^verbatim>\<open>random.random()\<close> returns.
\<close>

definition accuracy_check :: "int \<Rightarrow> rat \<Rightarrow> error + bool" where
  "accuracy_check acc r =
     pybind (int_truediv acc 100) (\<lambda>threshold. Inr (float_lt (Finite r) threshold))"

text \<open>\<^verbatim>\<open>calculate_damage\<close>; the result is \<open>(damage, effectiveness, missed)\<close>.\<close>

definition calculate_damage ::
  "(string \<Rightarrow> type_data option) \<Rightarrow> stats \<Rightarrow> stats \<Rightarrow> string list \<Rightarrow> move_data \<Rightarrow> rat
     \<Rightarrow> error + (int \<times> pyfloat \<times> bool)" where
  "calculate_damage fetch_type attacker_stats defender_stats defender_types md r =
     (let pw = move_power md;
          acc = resolve_accuracy (accuracy md);
          mv_type = move_type md;
          dclass = damage_class md;
          (atk, dfn) =
            (if dclass = ''physical''
             then (attack attacker_stats, defense defender_stats)
             else (special_attack attacker_stats, special_defense defender_stats));
          effectiveness = get_type_effectiveness fetch_type mv_type defender_types
      in pybind (accuracy_check acc r) (\<lambda>lands.
         pybind (if lands
                 then pybind (damage_value pw atk dfn effectiveness) py_int
                 else Inr 0) (\<lambda>damage.
         let missed = (damage = 0 \<and> \<not> float_eq effectiveness (Finite 0))
         in Inr (damage, effectiveness, missed))))"

section \<open>Move filter\<close>





section \<open>Strings\<close>

text \<open>
  \<^verbatim>\<open>str.title()\<close> and \<^verbatim>\<open>str.replace("-", " ")\<close> on ASCII text (catalog names are
  lower-case ASCII slugs): a letter that follows a letter is lowered, any other letter is
  raised, every other character is kept.
\<close>

definition is_lower :: "char \<Rightarrow> bool" where
  "is_lower c = (97 \<le> (of_char c :: nat) \<and> (of_char c :: nat) \<le> 122)"

definition is_upper :: "char \<Rightarrow> bool" where
  "is_upper c = (65 \<le> (of_char c :: nat) \<and> (of_char c :: nat) \<le> 90)"

definition to_upper :: "char \<Rightarrow> char" where
  "to_upper c = (if is_lower c then char_of ((of_char c :: nat) - 32) else c)"

definition to_lower :: "char \<Rightarrow> char" where
  "to_lower c = (if is_upper c then char_of ((of_char c :: nat) + 32) else c)"

fun title_from :: "bool \<Rightarrow> string \<Rightarrow> string" where
  "title_from previous_is_cased [] = []"
| "title_from previous_is_cased (c # cs) =
     (if is_lower c \<or> is_upper c
      then (if previous_is_cased then to_lower c else to_upper c) # title_from True cs
      else c # title_from False cs)"

definition title :: "string \<Rightarrow> string" where
  "title s = title_from False s"

definition replace_hyphens :: "string \<Rightarrow> string" where
  "replace_hyphens s = map (\<lambda>c. if c = CHR ''-'' then CHR '' '' else c) s"

section \<open>Battle simulation\<close>

text \<open>One row of \<^verbatim>\<open>battle_log\<close> and one sample of \<^verbatim>\<open>hp_history\<close>.\<close>

record turn_event =
  Round :: int
  Attacker :: string
  Move :: string
  Damage :: int
  Effectiveness :: pyfloat
  Note :: string
  Defender_HP :: int

record hp_sample =
  round_no :: int
  pokemon_name :: string
  hp_value :: int

text \<open>
  The local variables of \<^verbatim>\<open>simulate_battle\<close> that the loops update, and \<open>draws\<close>,
  the number of values taken from the random source so far: the \<open>k\<close>-th call of
  \<^verbatim>\<open>random.random()\<close> returns \<open>rng k\<close>.
\<close>

record battle_state =
  p1_hp :: int
  p2_hp :: int
  battle_log :: "turn_event list"
  hp_history :: "hp_sample list"
  draws :: nat

type_synonym turn = "pokemon \<times> move_data \<times> pokemon \<times> string"

text \<open>Lines 194 to 216: the order of the two turns of a round.\<close>

definition turn_order ::
  "(nat \<Rightarrow> rat) \<Rightarrow> pokemon \<Rightarrow> move_data \<Rightarrow> pokemon \<Rightarrow> move_data \<Rightarrow> battle_state
     \<Rightarrow> turn list \<times> battle_state" where
  "turn_order rng p1 p1_move p2 p2_move s =
     (let p1_speed = speed (stats p1);
          p2_speed = speed (stats p2);
          p1_first = [(p1, p1_move, p2, ''p2''), (p2, p2_move, p1, ''p1'')];
          p2_first = [(p2, p2_move, p1, ''p1''), (p1, p1_move, p2, ''p2'')]
      in if p2_speed < p1_speed then (p1_first, s)
         else if p1_speed < p2_speed then (p2_first, s)
         else if rng (draws s) < 1 / 2 then (p1_first, s\<lparr>draws := Suc (draws s)\<rparr>)
         else (p2_first, s\<lparr>draws := Suc (draws s)\<rparr>))"

text \<open>Lines 223 to 241: the damage is applied to the defender and the turn is logged.\<close>

definition defender_hp :: "string \<Rightarrow> battle_state \<Rightarrow> int" where
  "defender_hp def_key s = (if def_key = ''p1'' then p1_hp s else p2_hp s)"

definition apply_hit :: "int \<Rightarrow> turn \<Rightarrow> int \<times> pyfloat \<times> bool \<Rightarrow> battle_state \<Rightarrow> battle_state" where
  "apply_hit rnd t res s =
     (case t of (attacker, atk_move, defender, def_key) \<Rightarrow>
      case res of (dmg, eff, missed) \<Rightarrow>
        let s1 = s\<lparr>draws := Suc (draws s)\<rparr>;
            s2 = (if def_key = ''p1''
                  then s1\<lparr>p1_hp := max 0 (p1_hp s1 - dmg)\<rparr>
                  else s1\<lparr>p2_hp := max 0 (p2_hp s1 - dmg)\<rparr>);
            def_hp_after = defender_hp def_key s2;
            eff_msg = effectiveness_label eff
        in s2\<lparr>battle_log := battle_log s2 @
               [\<lparr>Round = rnd,
                 Attacker = title (name attacker),
                 Move = title (replace_hyphens (move_name atk_move)),
                 Damage = dmg,
                 Effectiveness = eff,
                 Note = (if missed then ''Missed!'' else eff_msg),
                 Defender_HP = def_hp_after\<rparr>]\<rparr>)"

text \<open>Lines 218 to 245: the turns of one round, left early when a defender faints.\<close>

fun attack_loop ::
  "(string \<Rightarrow> type_data option) \<Rightarrow> (nat \<Rightarrow> rat) \<Rightarrow> int \<Rightarrow> turn list \<Rightarrow> battle_state
     \<Rightarrow> error + battle_state" where
  "attack_loop fetch_type rng rnd [] s = Inr s"
| "attack_loop fetch_type rng rnd ((attacker, atk_move, defender, def_key) # rest) s =
     (case calculate_damage fetch_type (stats attacker) (stats defender) (types defender)
             atk_move (rng (draws s)) of
        Inl e \<Rightarrow> Inl e
      | Inr res \<Rightarrow>
          let s3 = apply_hit rnd (attacker, atk_move, defender, def_key) res s
          in if defender_hp def_key s3 \<le> 0 then Inr s3
             else attack_loop fetch_type rng rnd rest s3)"

text \<open>Lines 193 to 249: one round, with the two samples of the HP trace at its end.\<close>

definition play_round ::
  "(string \<Rightarrow> type_data option) \<Rightarrow> (nat \<Rightarrow> rat) \<Rightarrow> pokemon \<Rightarrow> move_data \<Rightarrow> pokemon \<Rightarrow> move_data
     \<Rightarrow> int \<Rightarrow> battle_state \<Rightarrow> error + battle_state" where
  "play_round fetch_type rng p1 p1_move p2 p2_move rnd s =
     (case turn_order rng p1 p1_move p2 p2_move s of
        (order, s0) \<Rightarrow>
          (case attack_loop fetch_type rng rnd order s0 of
             Inl e \<Rightarrow> Inl e
           | Inr s1 \<Rightarrow>
               Inr (s1\<lparr>hp_history := hp_history s1 @
                      [\<lparr>round_no = rnd, pokemon_name = name p1, hp_value = p1_hp s1\<rparr>,
                       \<lparr>round_no = rnd, pokemon_name = name p2, hp_value = p2_hp s1\<rparr>]\<rparr>)))"

text \<open>
  Lines 192 to 252: the rounds, over the remaining values of \<^verbatim>\<open>range(1, 101)\<close>; the loop
  is left when a side has no HP.
\<close>

fun round_loop ::
  "(string \<Rightarrow> type_data option) \<Rightarrow> (nat \<Rightarrow> rat) \<Rightarrow> pokemon \<Rightarrow> move_data \<Rightarrow> pokemon \<Rightarrow> move_data
     \<Rightarrow> int list \<Rightarrow> battle_state \<Rightarrow> error + battle_state" where
  "round_loop fetch_type rng p1 p1_move p2 p2_move [] s = Inr s"
| "round_loop fetch_type rng p1 p1_move p2 p2_move (rnd # rest) s =
     (case play_round fetch_type rng p1 p1_move p2 p2_move rnd s of
        Inl e \<Rightarrow> Inl e
      | Inr s2 \<Rightarrow>
          if p1_hp s2 \<le> 0 \<or> p2_hp s2 \<le> 0 then Inr s2
          else round_loop fetch_type rng p1 p1_move p2 p2_move rest s2)"

definition draw_message :: string where
  "draw_message = ''It's a draw!''"

text \<open>The dash of the second message is U+2014, three bytes in UTF-8.\<close>

definition limit_message :: string where
  "limit_message = ''Draw '' @ [CHR 0xE2, CHR 0x80, CHR 0x94] @ '' 100-round limit reached!''"

definition initial_state :: "pokemon \<Rightarrow> pokemon \<Rightarrow> battle_state" where
  "initial_state p1 p2 =
     \<lparr>p1_hp = hp (stats p1),
      p2_hp = hp (stats p2),
      battle_log = [],
      hp_history =
        [\<lparr>round_no = 0, pokemon_name = name p1, hp_value = hp (stats p1)\<rparr>,
         \<lparr>round_no = 0, pokemon_name = name p2, hp_value = hp (stats p2)\<rparr>],
      draws = 0\<rparr>"

text \<open>\<^verbatim>\<open>simulate_battle\<close>; the result is \<open>(battle_log, hp_history, winner)\<close>.\<close>

definition simulate_battle ::
  "(string \<Rightarrow> type_data option) \<Rightarrow> (nat \<Rightarrow> rat) \<Rightarrow> pokemon \<Rightarrow> move_data \<Rightarrow> pokemon \<Rightarrow> move_data
     \<Rightarrow> error + (turn_event list \<times> hp_sample list \<times> string)" where
  "simulate_battle fetch_type rng p1 p1_move p2 p2_move =
     (case round_loop fetch_type rng p1 p1_move p2 p2_move (map int [1..<101])
             (initial_state p1 p2) of
        Inl e \<Rightarrow> Inl e
      | Inr s \<Rightarrow>
          let winner =
                (if p1_hp s \<le> 0 \<and> p2_hp s \<le> 0 then draw_message
                 else if p1_hp s \<le> 0 then title (name p2)
                 else if p2_hp s \<le> 0 then title (name p1)
                 else limit_message)
          in Inr (battle_log s, hp_history s, winner))"

section \<open>Predicates of the statements and example data\<close>

text \<open>A float that is not negative (or not a number at all).\<close>

fun float_nonneg :: "pyfloat \<Rightarrow> bool" where
  "float_nonneg (Finite a) = (0 \<le> a)"
| "float_nonneg NegInf = False"
| "float_nonneg _ = True"

text \<open>The stats of the data model: no stat is negative.\<close>

definition valid_stats :: "stats \<Rightarrow> bool" where
  "valid_stats st =
     (0 \<le> hp st \<and> 0 \<le> attack st \<and> 0 \<le> defense st \<and> 0 \<le> special_attack st \<and>
      0 \<le> special_defense st \<and> 0 \<le> speed st)"

text \<open>The power of the data model: absent, or not negative.\<close>

definition valid_move :: "move_data \<Rightarrow> bool" where
  "valid_move md = (case move_power md of None \<Rightarrow> True | Some p \<Rightarrow> 0 \<le> p)"

text \<open>The stat pair that line 159 selects by the damage class.\<close>

definition chosen_attack :: "move_data \<Rightarrow> stats \<Rightarrow> int" where
  "chosen_attack md st = (if damage_class md = ''physical'' then attack st else special_attack st)"

definition chosen_defense :: "move_data \<Rightarrow> stats \<Rightarrow> int" where
  "chosen_defense md st = (if damage_class md = ''physical'' then defense st else special_defense st)"


text \<open>A small catalog of types.\<close>

definition ex_types :: "string \<Rightarrow> type_data option" where
  "ex_types t =
     (if t = ''normal''
      then Some \<lparr>double_damage_to = [], half_damage_to = [''rock'', ''steel''],
                 no_damage_to = [''ghost'']\<rparr>
      else if t = ''water''
      then Some \<lparr>double_damage_to = [''fire'', ''ground'', ''rock''],
                 half_damage_to = [''water'', ''grass'', ''dragon''], no_damage_to = []\<rparr>
      else None)"

definition ex_stats :: "int \<Rightarrow> int \<Rightarrow> int \<Rightarrow> int \<Rightarrow> stats" where
  "ex_stats h a d s =
     \<lparr>hp = h, attack = a, defense = d, special_attack = a, special_defense = d, speed = s\<rparr>"

definition ex_move :: "string \<Rightarrow> int option \<Rightarrow> int option \<Rightarrow> string \<Rightarrow> move_data" where
  "ex_move n p a t =
     \<lparr>move_name = n, move_power = p, accuracy = a, move_type = t, damage_class = ''physical''\<rparr>"

definition ex_pokemon :: "string \<Rightarrow> string list \<Rightarrow> stats \<Rightarrow> pokemon" where
  "ex_pokemon n ts st = \<lparr>name = n, sprite = [], types = ts, stats = st, moves = []\<rparr>"

text \<open>A battle of two rounds: every roll is 0, so every hit lands.\<close>

definition ex_rng :: "nat \<Rightarrow> rat" where
  "ex_rng k = 0"

definition ex_pikachu :: pokemon where
  "ex_pikachu = ex_pokemon ''pikachu'' [''electric''] (ex_stats 35 55 40 90)"

definition ex_eevee :: pokemon where
  "ex_eevee = ex_pokemon ''eevee'' [''normal''] (ex_stats 55 55 50 55)"

definition ex_quick_attack :: move_data where
  "ex_quick_attack = ex_move ''quick-attack'' (Some 40) (Some 100) ''normal''"

definition ex_tackle :: move_data where
  "ex_tackle = ex_move ''tackle'' (Some 40) (Some 100) ''normal''"

definition ex_battle_log :: "turn_event list" where
  "ex_battle_log =
     [\<lparr>Round = 1, Attacker = ''Pikachu'', Move = ''Quick Attack'', Damage = 21,
       Effectiveness = Finite 1, Note = [], Defender_HP = 34\<rparr>,
      \<lparr>Round = 1, Attacker = ''Eevee'', Move = ''Tackle'', Damage = 26,
       Effectiveness = Finite 1, Note = [], Defender_HP = 9\<rparr>,
      \<lparr>Round = 2, Attacker = ''Pikachu'', Move = ''Quick Attack'', Damage = 21,
       Effectiveness = Finite 1, Note = [], Defender_HP = 13\<rparr>,
      \<lparr>Round = 2, Attacker = ''Eevee'', Move = ''Tackle'', Damage = 26,
       Effectiveness = Finite 1, Note = [], Defender_HP = 0\<rparr>]"

definition ex_hp_history :: "hp_sample list" where
  "ex_hp_history =
     [\<lparr>round_no = 0, pokemon_name = ''pikachu'', hp_value = 35\<rparr>,
      \<lparr>round_no = 0, pokemon_name = ''eevee'', hp_value = 55\<rparr>,
      \<lparr>round_no = 1, pokemon_name = ''pikachu'', hp_value = 9\<rparr>,
      \<lparr>round_no = 1, pokemon_name = ''eevee'', hp_value = 34\<rparr>,
      \<lparr>round_no = 2, pokemon_name = ''pikachu'', hp_value = 0\<rparr>,
      \<lparr>round_no = 2, pokemon_name = ''eevee'', hp_value = 13\<rparr>]"

text \<open>A faster side that enters with no HP, against a side that one hit defeats.\<close>

definition ex_fainted :: pokemon where
  "ex_fainted = ex_pokemon ''pikachu'' [''electric''] (ex_stats 0 55 40 90)"

definition ex_weak :: pokemon where
  "ex_weak = ex_pokemon ''eevee'' [''normal''] (ex_stats 20 55 50 55)"

text \<open>
  The samples of one side in an HP trace: \<^verbatim>\<open>hp_history\<close> holds the sample of the first
  side at the even positions and the sample of the second side at the odd positions.
\<close>

fun alternate :: "'a list \<Rightarrow> 'a list" where
  "alternate [] = []"
| "alternate [x] = [x]"
| "alternate (x # y # xs) = x # alternate xs"

definition side1_trace :: "hp_sample list \<Rightarrow> int list" where
  "side1_trace hist = map hp_value (alternate hist)"

definition side2_trace :: "hp_sample list \<Rightarrow> int list" where
  "side2_trace hist = map hp_value (alternate (tl hist))"

text \<open>
  The factor of one defending type as the specification words it: 2 if the type is in
  double-damage-to, else 0.5 if it is in half-damage-to, else 0 if it is in no-damage-to,
  else 1.
\<close>

definition type_factor :: "type_data \<Rightarrow> string \<Rightarrow> rat" where
  "type_factor td d_type =
     (if d_type \<in> set (double_damage_to td) then 2
      else if d_type \<in> set (half_damage_to td) then 1 / 2
      else if d_type \<in> set (no_damage_to td) then 0
      else 1)"

text \<open>Zero, or a power of two whose exponent is at most \<open>n\<close> in magnitude.\<close>

definition two_power_within :: "nat \<Rightarrow> rat \<Rightarrow> bool" where
  "two_power_within n e = (e = 0 \<or> (\<exists>k. - int n \<le> k \<and> k \<le> int n \<and> e = pow2 k))"

text \<open>A finite float that is not negative and lies below \<open>2 ^ k\<close>.\<close>

definition finite_below :: "nat \<Rightarrow> pyfloat \<Rightarrow> bool" where
  "finite_below k f = (\<exists>y. f = Finite y \<and> 0 \<le> y \<and> y < pow2 (int k))"

text \<open>
  Profiles on which no operation of the engine raises: attack stats from 0 to below
  \<open>2 ^ 64\<close>, positive defense stats, at most two types, a power that is present and an
  accuracy that is absent or present, both from 0 to below \<open>2 ^ 64\<close>.
\<close>

definition bounded_stats :: "stats \<Rightarrow> bool" where
  "bounded_stats st =
     (0 \<le> attack st \<and> attack st < 2 ^ 64 \<and> 0 < defense st \<and>
      0 \<le> special_attack st \<and> special_attack st < 2 ^ 64 \<and> 0 < special_defense st)"

definition bounded_move :: "move_data \<Rightarrow> bool" where
  "bounded_move md =
     ((case move_power md of None \<Rightarrow> False | Some p \<Rightarrow> 0 \<le> p \<and> p < 2 ^ 64) \<and>
      (case accuracy md of None \<Rightarrow> True | Some a \<Rightarrow> 0 \<le> a \<and> a < 2 ^ 64))"

definition battle_ready :: "pokemon \<Rightarrow> bool" where
  "battle_ready p = (bounded_stats (stats p) \<and> length (types p) \<le> 2)"

text \<open>A turn whose two sides and move satisfy the data model.\<close>

definition valid_turn :: "turn \<Rightarrow> bool" where
  "valid_turn t = (case t of (a, mv, d, k) \<Rightarrow>
     valid_stats (stats a) \<and> valid_stats (stats d) \<and> valid_move mv)"

text \<open>The invariant of the round loop for the HP trace.\<close>

definition trace_ok :: "battle_state \<Rightarrow> bool" where
  "trace_ok s =
     (0 \<le> p1_hp s \<and> 0 \<le> p2_hp s \<and> even (length (hp_history s)) \<and>
      sorted_wrt (\<ge>) (side1_trace (hp_history s)) \<and>
      sorted_wrt (\<ge>) (side2_trace (hp_history s)) \<and>
      (\<forall>x\<in>set (side1_trace (hp_history s)). p1_hp s \<le> x) \<and>
      (\<forall>x\<in>set (side2_trace (hp_history s)). p2_hp s \<le> x) \<and>
      (\<forall>h\<in>set (hp_history s). 0 \<le> hp_value h))"

section \<open>Properties of the damage calculation\<close>

subsection \<open>Signs through the float operations\<close>

lemma round_half_even_nonneg: "0 \<le> x \<Longrightarrow> 0 \<le> round_half_even x"
  by (auto simp: round_half_even_def Let_def)

lemma pow2_pos: "0 < pow2 k"
  by (simp add: pow2_def)

lemma round_double_nonneg: "0 \<le> x \<Longrightarrow> float_nonneg (round_double x)"
  by (auto simp: round_double_def Let_def round_half_even_nonneg pow2_pos less_imp_le)

lemma round_double_0: "round_double 0 = Finite 0"
  by (simp add: round_double_def)

lemma float_mul_nonneg: "float_nonneg x \<Longrightarrow> float_nonneg y \<Longrightarrow> float_nonneg (float_mul x y)"
  by (cases x; cases y) (auto simp: round_double_nonneg)

lemma float_add_nonneg: "float_nonneg x \<Longrightarrow> float_nonneg y \<Longrightarrow> float_nonneg (float_add x y)"
  by (cases x; cases y) (auto simp: round_double_nonneg)

lemma float_div_nonneg:
  "float_nonneg x \<Longrightarrow> float_nonneg y \<Longrightarrow> float_div x y = Inr z \<Longrightarrow> float_nonneg z"
  by (cases x; cases y) (auto simp: round_double_nonneg split: if_splits)

lemma int_to_float_Inr: "int_to_float n = Inr f \<Longrightarrow> f = round_double (of_int n)"
  by (auto simp: int_to_float_def split: pyfloat.splits)

lemma int_truediv_Inr:
  "int_truediv a b = Inr f \<Longrightarrow> b \<noteq> 0 \<and> f = round_double (of_int a / of_int b)"
  by (auto simp: int_truediv_def split: pyfloat.splits if_splits)

lemma int_to_float_nonneg: "0 \<le> n \<Longrightarrow> int_to_float n = Inr f \<Longrightarrow> float_nonneg f"
  by (auto dest!: int_to_float_Inr intro: round_double_nonneg)

lemma int_truediv_nonneg: "0 \<le> a \<Longrightarrow> 0 \<le> b \<Longrightarrow> int_truediv a b = Inr f \<Longrightarrow> float_nonneg f"
  by (auto dest!: int_truediv_Inr intro: round_double_nonneg)

lemma pybind_Inr: "pybind m f = Inr y \<longleftrightarrow> (\<exists>v. m = Inr v \<and> f v = Inr y)"
  by (cases m) (auto simp: pybind_def)

lemma py_int_nonneg: "float_nonneg x \<Longrightarrow> py_int x = Inr d \<Longrightarrow> 0 \<le> d"
  by (cases x) (auto simp: py_int_def)


lemma type_step_nonneg: "float_nonneg e \<Longrightarrow> float_nonneg (type_step td e d)"
  by (simp add: type_step_def float_mul_nonneg)

lemma foldl_type_step_nonneg: "float_nonneg e \<Longrightarrow> float_nonneg (foldl (type_step td) e ds)"
  by (induction ds arbitrary: e) (simp_all add: type_step_nonneg)

lemma get_type_effectiveness_nonneg: "float_nonneg (get_type_effectiveness ft t ds)"
  by (simp add: get_type_effectiveness_def foldl_type_step_nonneg split: option.split)

lemma damage_value_nonneg:
  assumes "0 \<le> p" and "0 \<le> atk" and "0 \<le> dfn" and "float_nonneg eff"
    and "damage_value (Some p) atk dfn eff = Inr v"
  shows "float_nonneg v"
proof -
  from assms(5) obtain l1 two pf ratio fifty t3 where
    l1: "int_truediv (2 * LEVEL) 5 = Inr l1" and two: "int_to_float 2 = Inr two"
    and pf: "int_to_float p = Inr pf" and ratio: "int_truediv atk dfn = Inr ratio"
    and fifty: "int_to_float 50 = Inr fifty"
    and t3: "float_div (float_mul (float_mul (float_add l1 two) pf) ratio) fifty = Inr t3"
    and v: "v = float_mul (float_add t3 two) eff"
    by (auto simp: damage_value_def pybind_Inr Let_def)
  have n1: "float_nonneg l1" using l1 by (auto dest!: int_truediv_Inr intro!: round_double_nonneg simp: LEVEL_def)
  have n2: "float_nonneg two" using two by (auto dest!: int_to_float_Inr intro!: round_double_nonneg)
  have n3: "float_nonneg pf" using pf assms(1) by (rule int_to_float_nonneg [rotated])
  have n4: "float_nonneg ratio" using ratio assms(2,3) by (auto intro: int_truediv_nonneg)
  have n5: "float_nonneg fifty" using fifty by (auto dest!: int_to_float_Inr intro!: round_double_nonneg)
  have "float_nonneg (float_mul (float_mul (float_add l1 two) pf) ratio)"
    by (intro float_mul_nonneg float_add_nonneg n1 n2 n3 n4)
  then have "float_nonneg t3" using n5 t3 by (rule float_div_nonneg)
  then show ?thesis unfolding v
    by (intro float_mul_nonneg float_add_nonneg n2 assms(4))
qed

subsection \<open>The accuracy check\<close>

lemma round_double_1: "round_double 1 = Finite 1"
  by code_simp

lemma accuracy_check_100: "accuracy_check 100 r = Inr (r < 1)"
  by (simp add: accuracy_check_def int_truediv_def pybind_def round_double_1)

lemma calculate_damage_unfold:
  "calculate_damage ft ast dst dts md r =
     pybind (accuracy_check (resolve_accuracy (accuracy md)) r) (\<lambda>lands.
     pybind (if lands
             then pybind (damage_value (move_power md) (chosen_attack md ast) (chosen_defense md dst)
                    (get_type_effectiveness ft (move_type md) dts)) py_int
             else Inr 0) (\<lambda>damage.
     Inr (damage, get_type_effectiveness ft (move_type md) dts,
          damage = 0 \<and> \<not> float_eq (get_type_effectiveness ft (move_type md) dts) (Finite 0))))"
  by (cases "damage_class md = ''physical''")
    (simp_all add: calculate_damage_def chosen_attack_def chosen_defense_def Let_def cong: if_cong)

lemma calculate_damage_Inr:
  assumes "calculate_damage ft ast dst dts md r = Inr (d, e, m)"
  shows "e = get_type_effectiveness ft (move_type md) dts"
    and "m = (d = 0 \<and> \<not> float_eq e (Finite 0))"
    and "\<exists>lands. accuracy_check (resolve_accuracy (accuracy md)) r = Inr lands \<and>
           (if lands
            then pybind (damage_value (move_power md) (chosen_attack md ast) (chosen_defense md dst) e)
                   py_int = Inr d
            else d = 0)"
proof -
  from assms obtain lands damage where
    l: "accuracy_check (resolve_accuracy (accuracy md)) r = Inr lands"
    and dm: "(if lands
              then pybind (damage_value (move_power md) (chosen_attack md ast) (chosen_defense md dst)
                     (get_type_effectiveness ft (move_type md) dts)) py_int
              else Inr 0) = Inr damage"
    and res: "(d, e, m) = (damage, get_type_effectiveness ft (move_type md) dts,
          damage = 0 \<and> \<not> float_eq (get_type_effectiveness ft (move_type md) dts) (Finite 0))"
    unfolding calculate_damage_unfold pybind_Inr by blast
  from res show "e = get_type_effectiveness ft (move_type md) dts"
    and "m = (d = 0 \<and> \<not> float_eq e (Finite 0))" by simp_all
  from res l dm show "\<exists>lands. accuracy_check (resolve_accuracy (accuracy md)) r = Inr lands \<and>
           (if lands
            then pybind (damage_value (move_power md) (chosen_attack md ast) (chosen_defense md dst) e)
                   py_int = Inr d
            else d = 0)"
    by (cases lands) auto
qed

subsection \<open>Sign of the damage, immunity and the missed flag\<close>

lemma float_eq_zero: "float_eq e (Finite 0) \<longleftrightarrow> e = Finite 0"
  by (cases e) auto

lemma damage_value_zero_eff:
  assumes "damage_value pw atk dfn (Finite 0) = Inr v"
  shows "v = Finite 0 \<or> v = NaN"
proof -
  from assms obtain t4 where "v = float_mul t4 (Finite 0)"
    by (auto simp: damage_value_def pybind_Inr Let_def split: option.splits)
  then show ?thesis
    by (cases t4) (simp_all add: round_double_0)
qed

lemma immune_damage:
  assumes "pybind (damage_value pw atk dfn (Finite 0)) py_int = Inr d"
  shows "d = 0"
proof -
  from assms obtain v where v: "damage_value pw atk dfn (Finite 0) = Inr v" and d: "py_int v = Inr d"
    by (auto simp: pybind_Inr)
  from damage_value_zero_eff [OF v] d show ?thesis
    by (auto simp: py_int_def)
qed

lemma calculate_damage_nonneg:
  assumes "valid_move md" and "valid_stats ast" and "valid_stats dst"
    and "calculate_damage ft ast dst dts md r = Inr (d, e, m)"
  shows "0 \<le> d"
proof -
  from calculate_damage_Inr [OF assms(4)] obtain lands where
    e: "e = get_type_effectiveness ft (move_type md) dts"
    and dm: "if lands
            then pybind (damage_value (move_power md) (chosen_attack md ast) (chosen_defense md dst) e)
                   py_int = Inr d
            else d = 0"
    by blast
  show ?thesis
  proof (cases lands)
    case False
    with dm show ?thesis by simp
  next
    case True
    with dm obtain v where v: "damage_value (move_power md) (chosen_attack md ast) (chosen_defense md dst) e = Inr v"
      and d: "py_int v = Inr d"
      by (auto simp: pybind_Inr)
    from v obtain p where p: "move_power md = Some p"
      by (cases "move_power md") (auto simp: damage_value_def pybind_def split: sum.splits)
    have "0 \<le> p" using assms(1) p by (simp add: valid_move_def)
    moreover have "0 \<le> chosen_attack md ast" "0 \<le> chosen_defense md dst"
      using assms(2,3) by (simp_all add: valid_stats_def chosen_attack_def chosen_defense_def)
    moreover have "float_nonneg e" unfolding e by (rule get_type_effectiveness_nonneg)
    ultimately have "float_nonneg v" using v unfolding p by (rule damage_value_nonneg)
    then show ?thesis using d by (rule py_int_nonneg)
  qed
qed

lemma calculate_damage_immune:
  assumes "calculate_damage ft ast dst dts md r = Inr (d, e, m)" and "float_eq e (Finite 0)"
  shows "d = 0 \<and> \<not> m"
proof -
  from calculate_damage_Inr [OF assms(1)] obtain lands where
    m: "m = (d = 0 \<and> \<not> float_eq e (Finite 0))"
    and dm: "if lands
            then pybind (damage_value (move_power md) (chosen_attack md ast) (chosen_defense md dst) e)
                   py_int = Inr d
            else d = 0"
    by blast
  have e0: "e = Finite 0" using assms(2) by (simp add: float_eq_zero)
  have "d = 0" using dm unfolding e0 by (cases lands) (auto dest: immune_damage)
  with m assms(2) show ?thesis by simp
qed


text \<open>
  Claim C2 says that the missed flag is set only when the accuracy roll failed. The flag is
  derived from the damage (line 177), and a hit that lands can truncate to damage 0 while
  the multiplier is not 0: power 40, attack 5 against defense 180 and a multiplier of 0.25
  give \<open>int (2.4888 * 0.25) = 0\<close>. The roll \<open>0 < 1.0\<close> succeeds and the hit is
  reported as missed.
\<close>

theorem landed_hit_flagged_missed:
  "accuracy_check (resolve_accuracy (Some 100)) 0 = Inr True \<and>
   calculate_damage ex_types (ex_stats 250 5 5 50) (ex_stats 70 110 180 50) [''rock'', ''steel'']
     (ex_move ''pound'' (Some 40) (Some 100) ''normal'') 0 = Inr (0, Finite (1 / 4), True)"
  by code_simp


subsection \<open>Accuracy 0 and the value of a landed hit\<close>

lemma pybind_simps: "pybind (Inr v) f = f v" "pybind (Inl e) f = Inl e"
  by (simp_all add: pybind_def)

lemma resolve_accuracy_zero: "resolve_accuracy (Some 0) = 100" "resolve_accuracy None = 100"
  by (simp_all add: resolve_accuracy_def)

text \<open>
  Claim C10. An accuracy field of 0 is falsy, so line 154 replaces it by 100 exactly as it
  does for an absent accuracy: the two calls return the same result, and for every random
  value below 1 the accuracy check succeeds and the result is that of the hit branch.
\<close>

theorem zero_accuracy_always_hits:
  assumes "accuracy md = Some 0"
  shows "resolve_accuracy (accuracy md) = 100 \<and>
         calculate_damage ft ast dst dts md r
           = calculate_damage ft ast dst dts (md\<lparr>accuracy := None\<rparr>) r \<and>
         (r < 1 \<longrightarrow>
            accuracy_check (resolve_accuracy (accuracy md)) r = Inr True \<and>
            calculate_damage ft ast dst dts md r =
              pybind (pybind (damage_value (move_power md) (chosen_attack md ast)
                        (chosen_defense md dst) (get_type_effectiveness ft (move_type md) dts)) py_int)
                (\<lambda>damage. Inr (damage, get_type_effectiveness ft (move_type md) dts,
                   damage = 0 \<and> \<not> float_eq (get_type_effectiveness ft (move_type md) dts) (Finite 0))))"
proof -
  have a: "resolve_accuracy (accuracy md) = 100"
    using assms by (simp add: resolve_accuracy_zero)
  have b: "calculate_damage ft ast dst dts md r
           = calculate_damage ft ast dst dts (md\<lparr>accuracy := None\<rparr>) r"
    unfolding calculate_damage_unfold
    by (simp add: assms resolve_accuracy_zero chosen_attack_def chosen_defense_def cong: if_cong)
  have c: "accuracy_check (resolve_accuracy (accuracy md)) r = Inr True" if "r < 1"
    using that by (simp add: a accuracy_check_100)
  have d: "calculate_damage ft ast dst dts md r =
              pybind (pybind (damage_value (move_power md) (chosen_attack md ast)
                        (chosen_defense md dst) (get_type_effectiveness ft (move_type md) dts)) py_int)
                (\<lambda>damage. Inr (damage, get_type_effectiveness ft (move_type md) dts,
                   damage = 0 \<and> \<not> float_eq (get_type_effectiveness ft (move_type md) dts) (Finite 0)))"
    if "r < 1"
    unfolding calculate_damage_unfold by (simp add: c [OF that] pybind_simps)
  from a b c d show ?thesis by blast
qed

theorem zero_accuracy_always_hits_witness:
  "accuracy (ex_move ''swift'' (Some 60) (Some 0) ''normal'') = Some 0 \<and> (99 / 100 :: rat) < 1 \<and>
   calculate_damage ex_types (ex_stats 60 80 70 50) (ex_stats 60 65 60 110) [''water'']
     (ex_move ''swift'' (Some 60) (Some 0) ''normal'') (99 / 100) = Inr (37, Finite 1, False) \<and>
   calculate_damage ex_types (ex_stats 60 80 70 50) (ex_stats 60 65 60 110) [''water'']
     (ex_move ''swift'' (Some 60) (Some 0) ''normal'' \<lparr>accuracy := None\<rparr>) (99 / 100)
     = Inr (37, Finite 1, False)"
proof -
  have h: "accuracy (ex_move ''swift'' (Some 60) (Some 0) ''normal'') = Some 0"
    by (simp add: ex_move_def)
  have ev: "calculate_damage ex_types (ex_stats 60 80 70 50) (ex_stats 60 65 60 110) [''water'']
     (ex_move ''swift'' (Some 60) (Some 0) ''normal'') (99 / 100) = Inr (37, Finite 1, False)"
    by code_simp
  from zero_accuracy_always_hits [OF h, of ex_types "ex_stats 60 80 70 50" "ex_stats 60 65 60 110" "[''water'']" "99 / 100"]
    h ev show ?thesis by simp
qed



section \<open>Properties of the move filter\<close>



section \<open>Properties of the battle simulation\<close>

subsection \<open>One turn\<close>

lemma apply_hit_fields:
  "draws (apply_hit rnd (a, mv, d, k) (dmg, eff, missed) s) = Suc (draws s)"
  "hp_history (apply_hit rnd (a, mv, d, k) (dmg, eff, missed) s) = hp_history s"
  "p1_hp (apply_hit rnd (a, mv, d, k) (dmg, eff, missed) s)
     = (if k = ''p1'' then max 0 (p1_hp s - dmg) else p1_hp s)"
  "p2_hp (apply_hit rnd (a, mv, d, k) (dmg, eff, missed) s)
     = (if k = ''p1'' then p2_hp s else max 0 (p2_hp s - dmg))"
  by (simp_all add: apply_hit_def Let_def)

lemma apply_hit_log:
  "\<exists>ev. battle_log (apply_hit rnd (a, mv, d, k) res s) = battle_log s @ [ev] \<and>
        Round ev = rnd \<and>
        Defender_HP ev = defender_hp k (apply_hit rnd (a, mv, d, k) res s)"
  by (cases res) (simp add: apply_hit_def Let_def defender_hp_def)

lemma defender_hp_cases:
  "defender_hp k s \<le> 0 \<Longrightarrow> p1_hp s \<le> 0 \<or> p2_hp s \<le> 0"
  by (simp add: defender_hp_def split: if_splits)

lemma attack_loop_Cons:
  assumes "attack_loop ft rng rnd ((a, mv, d, k) # rest) s = Inr s'"
  shows "\<exists>res. calculate_damage ft (stats a) (stats d) (types d) mv (rng (draws s)) = Inr res \<and>
           (if defender_hp k (apply_hit rnd (a, mv, d, k) res s) \<le> 0
            then s' = apply_hit rnd (a, mv, d, k) res s
            else attack_loop ft rng rnd rest (apply_hit rnd (a, mv, d, k) res s) = Inr s')"
proof (cases "calculate_damage ft (stats a) (stats d) (types d) mv (rng (draws s))")
  case (Inl e)
  with assms show ?thesis by simp
next
  case (Inr res)
  with assms show ?thesis
    by (cases "defender_hp k (apply_hit rnd (a, mv, d, k) res s) \<le> 0") (simp_all add: Let_def)
qed

lemma round_loop_Cons:
  assumes "round_loop ft rng p1 m1 p2 m2 (rnd # rest) s = Inr s'"
  shows "\<exists>s2. play_round ft rng p1 m1 p2 m2 rnd s = Inr s2 \<and>
           (if p1_hp s2 \<le> 0 \<or> p2_hp s2 \<le> 0 then s' = s2
            else round_loop ft rng p1 m1 p2 m2 rest s2 = Inr s')"
proof (cases "play_round ft rng p1 m1 p2 m2 rnd s")
  case (Inl e)
  with assms show ?thesis by simp
next
  case (Inr s2)
  with assms show ?thesis
    by (cases "p1_hp s2 \<le> 0 \<or> p2_hp s2 \<le> 0") auto
qed

lemma play_round_Inr:
  assumes "play_round ft rng p1 m1 p2 m2 rnd s = Inr s2"
  shows "\<exists>order s0 s1. turn_order rng p1 m1 p2 m2 s = (order, s0) \<and>
           attack_loop ft rng rnd order s0 = Inr s1 \<and>
           s2 = s1\<lparr>hp_history := hp_history s1 @
                      [\<lparr>round_no = rnd, pokemon_name = name p1, hp_value = p1_hp s1\<rparr>,
                       \<lparr>round_no = rnd, pokemon_name = name p2, hp_value = p2_hp s1\<rparr>]\<rparr>"
  using assms by (auto simp: play_round_def split: prod.splits sum.splits)

lemma turn_order_cases:
  assumes "turn_order rng p1 m1 p2 m2 s = (order, s0)"
  shows "(order = [(p1, m1, p2, ''p2''), (p2, m2, p1, ''p1'')] \<or>
          order = [(p2, m2, p1, ''p1''), (p1, m1, p2, ''p2'')]) \<and>
         p1_hp s0 = p1_hp s \<and> p2_hp s0 = p2_hp s \<and> battle_log s0 = battle_log s \<and>
         hp_history s0 = hp_history s"
  using assms by (auto simp: turn_order_def Let_def split: if_splits)

subsection \<open>A fainted defender ends the log\<close>

lemma attack_loop_faint:
  assumes "attack_loop ft rng rnd turns s = Inr s'"
    and "\<forall>e\<in>set (battle_log s). 0 < Defender_HP e"
  shows "(\<forall>e\<in>set (battle_log s'). 0 < Defender_HP e) \<or>
         ((p1_hp s' \<le> 0 \<or> p2_hp s' \<le> 0) \<and>
          (\<exists>pre ev. battle_log s' = pre @ [ev] \<and> (\<forall>e\<in>set pre. 0 < Defender_HP e)))"
  using assms
proof (induction turns arbitrary: s)
  case Nil
  then show ?case by simp
next
  case (Cons t rest)
  obtain a mv d k where t: "t = (a, mv, d, k)" by (cases t) auto
  from attack_loop_Cons [OF Cons.prems(1) [unfolded t]] obtain res where
    stop: "defender_hp k (apply_hit rnd (a, mv, d, k) res s) \<le> 0 \<Longrightarrow>
           s' = apply_hit rnd (a, mv, d, k) res s"
    and go: "\<not> defender_hp k (apply_hit rnd (a, mv, d, k) res s) \<le> 0 \<Longrightarrow>
           attack_loop ft rng rnd rest (apply_hit rnd (a, mv, d, k) res s) = Inr s'"
    by (auto split: if_splits)
  let ?s3 = "apply_hit rnd (a, mv, d, k) res s"
  from apply_hit_log [of rnd a mv d k res s] obtain ev where
    ev: "battle_log ?s3 = battle_log s @ [ev]" "Defender_HP ev = defender_hp k ?s3"
    by blast
  show ?case
  proof (cases "defender_hp k ?s3 \<le> 0")
    case True
    with stop have "s' = ?s3" by simp
    with True ev Cons.prems(2) defender_hp_cases [OF True] show ?thesis by auto
  next
    case False
    with ev Cons.prems(2) have "\<forall>e\<in>set (battle_log ?s3). 0 < Defender_HP e" by auto
    with Cons.IH [OF go [OF False]] show ?thesis by blast
  qed
qed

lemma round_loop_faint:
  assumes "round_loop ft rng p1 m1 p2 m2 rounds s = Inr s'"
    and "\<forall>e\<in>set (battle_log s). 0 < Defender_HP e"
  shows "(\<forall>e\<in>set (battle_log s'). 0 < Defender_HP e) \<or>
         (\<exists>pre ev. battle_log s' = pre @ [ev] \<and> (\<forall>e\<in>set pre. 0 < Defender_HP e))"
  using assms
proof (induction rounds arbitrary: s)
  case Nil
  then show ?case by simp
next
  case (Cons rnd rest)
  from round_loop_Cons [OF Cons.prems(1)] obtain s2 where
    pr: "play_round ft rng p1 m1 p2 m2 rnd s = Inr s2"
    and stop: "p1_hp s2 \<le> 0 \<or> p2_hp s2 \<le> 0 \<Longrightarrow> s' = s2"
    and go: "\<not> (p1_hp s2 \<le> 0 \<or> p2_hp s2 \<le> 0) \<Longrightarrow> round_loop ft rng p1 m1 p2 m2 rest s2 = Inr s'"
    by (auto split: if_splits)
  from play_round_Inr [OF pr] obtain order s0 s1 where
    to: "turn_order rng p1 m1 p2 m2 s = (order, s0)"
    and al: "attack_loop ft rng rnd order s0 = Inr s1"
    and s2: "s2 = s1\<lparr>hp_history := hp_history s1 @
                      [\<lparr>round_no = rnd, pokemon_name = name p1, hp_value = p1_hp s1\<rparr>,
                       \<lparr>round_no = rnd, pokemon_name = name p2, hp_value = p2_hp s1\<rparr>]\<rparr>"
    by blast
  from turn_order_cases [OF to] Cons.prems(2)
  have "\<forall>e\<in>set (battle_log s0). 0 < Defender_HP e" by simp
  from attack_loop_faint [OF al this]
  have one: "(\<forall>e\<in>set (battle_log s2). 0 < Defender_HP e) \<or>
         ((p1_hp s2 \<le> 0 \<or> p2_hp s2 \<le> 0) \<and>
          (\<exists>pre ev. battle_log s2 = pre @ [ev] \<and> (\<forall>e\<in>set pre. 0 < Defender_HP e)))"
    by (simp add: s2)
  show ?case
  proof (cases "p1_hp s2 \<le> 0 \<or> p2_hp s2 \<le> 0")
    case True
    with stop one show ?thesis by blast
  next
    case False
    with one have "\<forall>e\<in>set (battle_log s2). 0 < Defender_HP e" by blast
    from Cons.IH [OF go [OF False] this] show ?thesis .
  qed
qed

lemma simulate_battle_Inr:
  assumes "simulate_battle ft rng p1 m1 p2 m2 = Inr (evs, hist, w)"
  shows "\<exists>s. round_loop ft rng p1 m1 p2 m2 (map int [1..<101]) (initial_state p1 p2) = Inr s \<and>
           evs = battle_log s \<and> hist = hp_history s \<and>
           w = (if p1_hp s \<le> 0 \<and> p2_hp s \<le> 0 then draw_message
                else if p1_hp s \<le> 0 then title (name p2)
                else if p2_hp s \<le> 0 then title (name p1)
                else limit_message)"
  using assms by (auto simp: simulate_battle_def Let_def split: sum.splits)

text \<open>
  Claim C4. In every battle log that \<^verbatim>\<open>simulate_battle\<close> returns, a turn that leaves the
  defender at 0 HP is the last entry of the log: no further turn is logged for that round
  (nor for any other), so the second scheduled attacker does not take its turn.
\<close>

theorem no_turn_after_faint:
  assumes "simulate_battle ft rng p1 m1 p2 m2 = Inr (evs, hist, w)"
    and "i < length evs" and "Defender_HP (evs ! i) \<le> 0"
  shows "Suc i = length evs \<and>
         (\<forall>j. i < j \<and> j < length evs \<longrightarrow> Round (evs ! j) \<noteq> Round (evs ! i))"
proof -
  from simulate_battle_Inr [OF assms(1)] obtain s where
    rl: "round_loop ft rng p1 m1 p2 m2 (map int [1..<101]) (initial_state p1 p2) = Inr s"
    and evs: "evs = battle_log s"
    by blast
  have "\<forall>e\<in>set (battle_log (initial_state p1 p2)). 0 < Defender_HP e"
    by (simp add: initial_state_def)
  from round_loop_faint [OF rl this]
  have "(\<forall>e\<in>set evs. 0 < Defender_HP e) \<or>
        (\<exists>pre ev. evs = pre @ [ev] \<and> (\<forall>e\<in>set pre. 0 < Defender_HP e))"
    by (simp add: evs)
  then have "Suc i = length evs"
  proof
    assume "\<forall>e\<in>set evs. 0 < Defender_HP e"
    with assms(2) have "0 < Defender_HP (evs ! i)" by simp
    with assms(3) show ?thesis by simp
  next
    assume "\<exists>pre ev. evs = pre @ [ev] \<and> (\<forall>e\<in>set pre. 0 < Defender_HP e)"
    then obtain pre ev where l: "evs = pre @ [ev]" and pre: "\<forall>e\<in>set pre. 0 < Defender_HP e"
      by blast
    show ?thesis
    proof (rule ccontr)
      assume "Suc i \<noteq> length evs"
      with assms(2) l have i: "i < length pre" by simp
      then have "evs ! i = pre ! i" by (simp add: l nth_append)
      with pre i assms(3) show False by (metis nth_mem not_less)
    qed
  qed
  then show ?thesis by simp
qed

lemma ex_battle_result:
  "simulate_battle ex_types ex_rng ex_pikachu ex_quick_attack ex_eevee ex_tackle
     = Inr (ex_battle_log, ex_hp_history, ''Eevee'')"
  by code_simp

theorem no_turn_after_faint_witness:
  "simulate_battle ex_types ex_rng ex_pikachu ex_quick_attack ex_eevee ex_tackle
     = Inr (ex_battle_log, ex_hp_history, ''Eevee'') \<and>
   3 < length ex_battle_log \<and> Defender_HP (ex_battle_log ! 3) \<le> 0 \<and>
   Suc 3 = length ex_battle_log"
  using no_turn_after_faint [OF ex_battle_result, of 3] ex_battle_result
  by (simp add: ex_battle_log_def)

subsection \<open>At most 100 rounds\<close>

lemma attack_loop_log:
  assumes "attack_loop ft rng rnd turns s = Inr s'"
  shows "hp_history s' = hp_history s \<and>
         (\<exists>new. battle_log s' = battle_log s @ new \<and> (\<forall>e\<in>set new. Round e = rnd) \<and>
                length new \<le> length turns)"
  using assms
proof (induction turns arbitrary: s)
  case Nil
  then show ?case by simp
next
  case (Cons t rest)
  obtain a mv d k where t: "t = (a, mv, d, k)" by (cases t) auto
  from attack_loop_Cons [OF Cons.prems(1) [unfolded t]] obtain res where
    stop: "defender_hp k (apply_hit rnd (a, mv, d, k) res s) \<le> 0 \<Longrightarrow>
           s' = apply_hit rnd (a, mv, d, k) res s"
    and go: "\<not> defender_hp k (apply_hit rnd (a, mv, d, k) res s) \<le> 0 \<Longrightarrow>
           attack_loop ft rng rnd rest (apply_hit rnd (a, mv, d, k) res s) = Inr s'"
    by (auto split: if_splits)
  let ?s3 = "apply_hit rnd (a, mv, d, k) res s"
  from apply_hit_log [of rnd a mv d k res s] obtain ev where
    ev: "battle_log ?s3 = battle_log s @ [ev]" "Round ev = rnd"
    by blast
  have h: "hp_history ?s3 = hp_history s"
    by (cases res) (simp add: apply_hit_fields)
  show ?case
  proof (cases "defender_hp k ?s3 \<le> 0")
    case True
    with stop have "s' = ?s3" by simp
    with ev h show ?thesis by simp
  next
    case False
    from Cons.IH [OF go [OF False]] obtain new where
      "hp_history s' = hp_history ?s3" "battle_log s' = battle_log ?s3 @ new"
      "\<forall>e\<in>set new. Round e = rnd" "length new \<le> length rest"
      by blast
    with ev h have "hp_history s' = hp_history s \<and> battle_log s' = battle_log s @ (ev # new) \<and>
        (\<forall>e\<in>set (ev # new). Round e = rnd) \<and> length (ev # new) \<le> length (t # rest)"
      by simp
    then show ?thesis by blast
  qed
qed

lemma play_round_log:
  assumes "play_round ft rng p1 m1 p2 m2 rnd s = Inr s2"
  shows "map round_no (hp_history s2) = map round_no (hp_history s) @ [rnd, rnd] \<and>
         (\<exists>new. battle_log s2 = battle_log s @ new \<and> (\<forall>e\<in>set new. Round e = rnd) \<and>
                length new \<le> 2)"
proof -
  from play_round_Inr [OF assms] obtain order s0 s1 where
    to: "turn_order rng p1 m1 p2 m2 s = (order, s0)"
    and al: "attack_loop ft rng rnd order s0 = Inr s1"
    and s2: "s2 = s1\<lparr>hp_history := hp_history s1 @
                      [\<lparr>round_no = rnd, pokemon_name = name p1, hp_value = p1_hp s1\<rparr>,
                       \<lparr>round_no = rnd, pokemon_name = name p2, hp_value = p2_hp s1\<rparr>]\<rparr>"
    by blast
  from turn_order_cases [OF to] have len: "length order = 2"
    and same: "battle_log s0 = battle_log s" "hp_history s0 = hp_history s"
    by auto
  from attack_loop_log [OF al] len same show ?thesis
    by (simp add: s2)
qed

lemma round_loop_rounds:
  assumes "round_loop ft rng p1 m1 p2 m2 rounds s = Inr s'"
  shows "\<exists>n\<le>length rounds.
           map round_no (hp_history s')
             = map round_no (hp_history s) @ concat (map (\<lambda>r. [r, r]) (take n rounds)) \<and>
           (\<exists>new. battle_log s' = battle_log s @ new \<and>
                  (\<forall>e\<in>set new. Round e \<in> set (take n rounds)) \<and> length new \<le> 2 * n)"
  using assms
proof (induction rounds arbitrary: s)
  case Nil
  then show ?case by simp
next
  case (Cons rnd rest)
  from round_loop_Cons [OF Cons.prems(1)] obtain s2 where
    pr: "play_round ft rng p1 m1 p2 m2 rnd s = Inr s2"
    and stop: "p1_hp s2 \<le> 0 \<or> p2_hp s2 \<le> 0 \<Longrightarrow> s' = s2"
    and go: "\<not> (p1_hp s2 \<le> 0 \<or> p2_hp s2 \<le> 0) \<Longrightarrow> round_loop ft rng p1 m1 p2 m2 rest s2 = Inr s'"
    by (auto split: if_splits)
  from play_round_log [OF pr] obtain new where
    h2: "map round_no (hp_history s2) = map round_no (hp_history s) @ [rnd, rnd]"
    and l2: "battle_log s2 = battle_log s @ new" "\<forall>e\<in>set new. Round e = rnd" "length new \<le> 2"
    by blast
  show ?case
  proof (cases "p1_hp s2 \<le> 0 \<or> p2_hp s2 \<le> 0")
    case True
    with stop have "s' = s2" by simp
    with h2 l2 have "Suc 0 \<le> length (rnd # rest) \<and>
           map round_no (hp_history s')
             = map round_no (hp_history s) @ concat (map (\<lambda>r. [r, r]) (take (Suc 0) (rnd # rest))) \<and>
           (battle_log s' = battle_log s @ new \<and>
                  (\<forall>e\<in>set new. Round e \<in> set (take (Suc 0) (rnd # rest))) \<and> length new \<le> 2 * Suc 0)"
      by simp
    then show ?thesis by blast
  next
    case False
    from Cons.IH [OF go [OF False]] obtain n new' where
      n: "n \<le> length rest"
      and h: "map round_no (hp_history s')
             = map round_no (hp_history s2) @ concat (map (\<lambda>r. [r, r]) (take n rest))"
      and l: "battle_log s' = battle_log s2 @ new'"
        "\<forall>e\<in>set new'. Round e \<in> set (take n rest)" "length new' \<le> 2 * n"
      by blast
    from n h l h2 l2 have "Suc n \<le> length (rnd # rest) \<and>
           map round_no (hp_history s')
             = map round_no (hp_history s) @ concat (map (\<lambda>r. [r, r]) (take (Suc n) (rnd # rest))) \<and>
           (battle_log s' = battle_log s @ (new @ new') \<and>
                  (\<forall>e\<in>set (new @ new'). Round e \<in> set (take (Suc n) (rnd # rest))) \<and>
                  length (new @ new') \<le> 2 * Suc n)"
      by auto
    then show ?thesis by blast
  qed
qed

lemma simulate_battle_rounds:
  assumes "simulate_battle ft rng p1 m1 p2 m2 = Inr (evs, hist, w)"
  shows "\<exists>n\<le>100.
           map round_no hist = concat (map (\<lambda>k. [int k, int k]) [0..<Suc n]) \<and>
           (\<forall>e\<in>set evs. 1 \<le> Round e \<and> Round e \<le> int n) \<and>
           (\<forall>h\<in>set hist. 0 \<le> round_no h \<and> round_no h \<le> 100) \<and>
           length evs \<le> 2 * n"
proof -
  from simulate_battle_Inr [OF assms] obtain s where
    rl: "round_loop ft rng p1 m1 p2 m2 (map int [1..<101]) (initial_state p1 p2) = Inr s"
    and evs: "evs = battle_log s" and hist: "hist = hp_history s"
    by blast
  from round_loop_rounds [OF rl] obtain n new where
    n: "n \<le> 100"
    and h: "map round_no hist
             = [0, 0] @ concat (map (\<lambda>r. [r, r]) (take n (map int [1..<101])))"
    and l: "evs = new" "\<forall>e\<in>set new. Round e \<in> set (take n (map int [1..<101]))"
      "length new \<le> 2 * n"
    by (auto simp: evs hist initial_state_def)
  from n have tk: "take n (map int [1..<101]) = map int [1..<Suc n]"
    by (simp add: take_map)
  have c: "concat (map (\<lambda>k. [int k, int k]) [0..<Suc n])
           = [0, 0] @ concat (map (\<lambda>r. [r, r]) (map int [1..<Suc n]))"
    by (simp add: upt_conv_Cons [of 0] map_concat comp_def del: upt_Suc)
  have hs: "map round_no hist = concat (map (\<lambda>k. [int k, int k]) [0..<Suc n])"
    using h unfolding tk c .
  have "\<forall>x\<in>set (map round_no hist). 0 \<le> x \<and> x \<le> 100"
    unfolding hs using n by auto
  then have hb: "\<forall>h\<in>set hist. 0 \<le> round_no h \<and> round_no h \<le> 100"
    by simp
  from l tk have "\<forall>e\<in>set evs. 1 \<le> Round e \<and> Round e \<le> int n"
    by auto
  with n hs hb l show ?thesis by blast
qed


subsection \<open>The HP trace\<close>

lemma alternate_Cons: "alternate (x # ys) = x # alternate (tl ys)"
  by (cases ys) simp_all

lemma alternate_append:
  "alternate (xs @ ys) = alternate xs @ (if even (length xs) then alternate ys else alternate (tl ys))"
  by (induction xs rule: alternate.induct) (simp_all add: alternate_Cons)

lemma side1_trace_append:
  "even (length h) \<Longrightarrow> side1_trace (h @ [a, b]) = side1_trace h @ [hp_value a]"
  by (simp add: side1_trace_def alternate_append)

lemma side2_trace_append:
  "even (length h) \<Longrightarrow> side2_trace (h @ [a, b]) = side2_trace h @ [hp_value b]"
  by (cases h) (simp_all add: side2_trace_def alternate_append)

lemma attack_loop_hp:
  assumes "attack_loop ft rng rnd turns s = Inr s'"
    and "\<forall>t\<in>set turns. valid_turn t"
    and "0 \<le> p1_hp s" and "0 \<le> p2_hp s"
  shows "0 \<le> p1_hp s' \<and> p1_hp s' \<le> p1_hp s \<and> 0 \<le> p2_hp s' \<and> p2_hp s' \<le> p2_hp s"
  using assms
proof (induction turns arbitrary: s)
  case Nil
  then show ?case by simp
next
  case (Cons t rest)
  obtain a mv d k where t: "t = (a, mv, d, k)" by (cases t) auto
  from attack_loop_Cons [OF Cons.prems(1) [unfolded t]] obtain res where
    cd: "calculate_damage ft (stats a) (stats d) (types d) mv (rng (draws s)) = Inr res"
    and stop: "defender_hp k (apply_hit rnd (a, mv, d, k) res s) \<le> 0 \<Longrightarrow>
           s' = apply_hit rnd (a, mv, d, k) res s"
    and go: "\<not> defender_hp k (apply_hit rnd (a, mv, d, k) res s) \<le> 0 \<Longrightarrow>
           attack_loop ft rng rnd rest (apply_hit rnd (a, mv, d, k) res s) = Inr s'"
    by (auto split: if_splits)
  obtain dmg eff missed where res: "res = (dmg, eff, missed)" by (cases res) auto
  from Cons.prems(2) have vt: "valid_move mv" "valid_stats (stats a)" "valid_stats (stats d)"
    by (simp_all add: t valid_turn_def)
  have dmg: "0 \<le> dmg"
    using vt cd [unfolded res] by (rule calculate_damage_nonneg)
  let ?s3 = "apply_hit rnd (a, mv, d, k) res s"
  from dmg Cons.prems(3,4)
  have s3: "0 \<le> p1_hp ?s3 \<and> p1_hp ?s3 \<le> p1_hp s \<and> 0 \<le> p2_hp ?s3 \<and> p2_hp ?s3 \<le> p2_hp s"
    by (simp add: res apply_hit_fields)
  show ?case
  proof (cases "defender_hp k ?s3 \<le> 0")
    case True
    with stop s3 show ?thesis by simp
  next
    case False
    from Cons.prems(2) have "\<forall>t\<in>set rest. valid_turn t" by simp
    from Cons.IH [OF go [OF False] this] s3 show ?thesis by simp
  qed
qed

lemma play_round_trace:
  assumes "play_round ft rng p1 m1 p2 m2 rnd s = Inr s2"
    and "valid_stats (stats p1)" and "valid_stats (stats p2)"
    and "valid_move m1" and "valid_move m2"
    and "trace_ok s"
  shows "trace_ok s2"
proof -
  from play_round_Inr [OF assms(1)] obtain order s0 s1 where
    to: "turn_order rng p1 m1 p2 m2 s = (order, s0)"
    and al: "attack_loop ft rng rnd order s0 = Inr s1"
    and s2: "s2 = s1\<lparr>hp_history := hp_history s1 @
                      [\<lparr>round_no = rnd, pokemon_name = name p1, hp_value = p1_hp s1\<rparr>,
                       \<lparr>round_no = rnd, pokemon_name = name p2, hp_value = p2_hp s1\<rparr>]\<rparr>"
    by blast
  from turn_order_cases [OF to] assms(2-5)
  have vt: "\<forall>t\<in>set order. valid_turn t"
    and same: "p1_hp s0 = p1_hp s" "p2_hp s0 = p2_hp s" "hp_history s0 = hp_history s"
    by (auto simp: valid_turn_def)
  from assms(6) have hp0: "0 \<le> p1_hp s0" "0 \<le> p2_hp s0"
    by (simp_all add: trace_ok_def same)
  from attack_loop_hp [OF al vt hp0]
  have hp1: "0 \<le> p1_hp s1" "p1_hp s1 \<le> p1_hp s" "0 \<le> p2_hp s1" "p2_hp s1 \<le> p2_hp s"
    by (simp_all add: same)
  from attack_loop_log [OF al] have h1: "hp_history s1 = hp_history s"
    by (simp add: same)
  from assms(6) have ev: "even (length (hp_history s))"
    by (simp add: trace_ok_def)
  from assms(6) hp1 show ?thesis
    unfolding trace_ok_def s2
    by (simp add: h1 side1_trace_append [OF ev] side2_trace_append [OF ev] sorted_wrt_append)
      force
qed

lemma round_loop_trace:
  assumes "round_loop ft rng p1 m1 p2 m2 rounds s = Inr s'"
    and "valid_stats (stats p1)" and "valid_stats (stats p2)"
    and "valid_move m1" and "valid_move m2"
    and "trace_ok s"
  shows "trace_ok s'"
  using assms(1,6)
proof (induction rounds arbitrary: s)
  case Nil
  then show ?case by simp
next
  case (Cons rnd rest)
  from round_loop_Cons [OF Cons.prems(1)] obtain s2 where
    pr: "play_round ft rng p1 m1 p2 m2 rnd s = Inr s2"
    and stop: "p1_hp s2 \<le> 0 \<or> p2_hp s2 \<le> 0 \<Longrightarrow> s' = s2"
    and go: "\<not> (p1_hp s2 \<le> 0 \<or> p2_hp s2 \<le> 0) \<Longrightarrow> round_loop ft rng p1 m1 p2 m2 rest s2 = Inr s'"
    by (auto split: if_splits)
  have ok: "trace_ok s2"
    using pr assms(2-5) Cons.prems(2) by (rule play_round_trace)
  show ?case
  proof (cases "p1_hp s2 \<le> 0 \<or> p2_hp s2 \<le> 0")
    case True
    with stop ok show ?thesis by simp
  next
    case False
    from Cons.IH [OF go [OF False] ok] show ?thesis .
  qed
qed

text \<open>
  Claim C5. With stats and powers that are not negative, as in the data model, the HP trace
  that \<^verbatim>\<open>simulate_battle\<close> returns holds, for each side, values that never increase
  from one round to the next, and no value is negative.
\<close>

theorem hp_trace_monotone_nonneg:
  assumes "valid_stats (stats p1)" and "valid_stats (stats p2)"
    and "valid_move m1" and "valid_move m2"
    and "simulate_battle ft rng p1 m1 p2 m2 = Inr (evs, hist, w)"
  shows "sorted_wrt (\<ge>) (side1_trace hist) \<and> sorted_wrt (\<ge>) (side2_trace hist) \<and>
         (\<forall>h\<in>set hist. 0 \<le> hp_value h)"
proof -
  from simulate_battle_Inr [OF assms(5)] obtain s where
    rl: "round_loop ft rng p1 m1 p2 m2 (map int [1..<101]) (initial_state p1 p2) = Inr s"
    and hist: "hist = hp_history s"
    by blast
  from assms(1,2) have "trace_ok (initial_state p1 p2)"
    by (simp add: trace_ok_def initial_state_def valid_stats_def side1_trace_def side2_trace_def)
  with rl assms(1-4) have "trace_ok s" by (rule round_loop_trace)
  then show ?thesis by (simp add: trace_ok_def hist)
qed

theorem hp_trace_monotone_nonneg_witness:
  "valid_stats (stats ex_pikachu) \<and> valid_stats (stats ex_eevee) \<and>
   valid_move ex_quick_attack \<and> valid_move ex_tackle \<and>
   simulate_battle ex_types ex_rng ex_pikachu ex_quick_attack ex_eevee ex_tackle
     = Inr (ex_battle_log, ex_hp_history, ''Eevee'') \<and>
   side1_trace ex_hp_history = [35, 9, 0] \<and> side2_trace ex_hp_history = [55, 34, 13] \<and>
   sorted_wrt (\<ge>) (side1_trace ex_hp_history) \<and> sorted_wrt (\<ge>) (side2_trace ex_hp_history) \<and>
   list_all (\<lambda>h. 0 \<le> hp_value h) ex_hp_history"
proof -
  have v: "valid_stats (stats ex_pikachu)" "valid_stats (stats ex_eevee)"
    "valid_move ex_quick_attack" "valid_move ex_tackle"
    by (simp_all add: valid_stats_def valid_move_def ex_pikachu_def ex_eevee_def
        ex_quick_attack_def ex_tackle_def ex_pokemon_def ex_stats_def ex_move_def)
  have t: "side1_trace ex_hp_history = [35, 9, 0]" "side2_trace ex_hp_history = [55, 34, 13]"
    by (simp_all add: side1_trace_def side2_trace_def ex_hp_history_def)
  from hp_trace_monotone_nonneg [OF v ex_battle_result] v ex_battle_result t
  show ?thesis by (simp add: list_all_iff)
qed

subsection \<open>The winner\<close>

lemma to_upper_not_lower: "\<not> is_lower (to_upper c)"
  by (auto simp: to_upper_def is_lower_def)

lemma cased_to_upper: "is_lower c \<or> is_upper c \<Longrightarrow> is_lower (to_upper c) \<or> is_upper (to_upper c)"
  by (auto simp: to_upper_def is_lower_def is_upper_def)

lemma cased_to_lower: "is_lower c \<or> is_upper c \<Longrightarrow> is_lower (to_lower c) \<or> is_upper (to_lower c)"
  by (auto simp: to_lower_def is_lower_def is_upper_def)

lemma title_from_start: "\<not> is_lower (hd (title_from False (c # cs)))"
  by (simp add: to_upper_not_lower)

lemma title_from_after_uncased:
  "Suc i < length (title_from b s) \<Longrightarrow>
   \<not> (is_lower (title_from b s ! i) \<or> is_upper (title_from b s ! i)) \<Longrightarrow>
   \<not> is_lower (title_from b s ! Suc i)"
proof (induction s arbitrary: b i)
  case Nil
  then show ?case by simp
next
  case (Cons c cs)
  show ?case
  proof (cases i)
    case (Suc j)
    with Cons.prems Cons.IH [of j "is_lower c \<or> is_upper c"] show ?thesis
      by (auto split: if_splits)
  next
    case 0
    from Cons.prems(1) obtain c2 cs2 where cs: "cs = c2 # cs2"
      by (cases cs) (auto split: if_splits)
    from Cons.prems(2) 0 have unc: "\<not> (is_lower c \<or> is_upper c)"
      using cased_to_upper [of c] cased_to_lower [of c] by (auto split: if_splits)
    then have "title_from b (c # cs) ! Suc 0 = hd (title_from False (c2 # cs2))"
      by (simp add: cs)
    with title_from_start [of c2 cs2] 0 show ?thesis by simp
  qed
qed

lemma title_not_draw: "title s \<noteq> ''It's a draw!''"
proof
  assume eq: "title s = ''It's a draw!''"
  have "\<not> is_lower (title_from False s ! Suc 2)"
  proof (rule title_from_after_uncased)
    show "Suc 2 < length (title_from False s)"
      using eq by (simp add: title_def)
    show "\<not> (is_lower (title_from False s ! 2) \<or> is_upper (title_from False s ! 2))"
      using eq by (simp add: title_def is_lower_def is_upper_def)
  qed
  with eq show False
    by (simp add: title_def is_lower_def)
qed

lemma limit_not_draw: "limit_message \<noteq> ''It's a draw!''"
  by (simp add: limit_message_def)

lemma attack_loop_one_stands:
  assumes "attack_loop ft rng rnd turns s = Inr s'"
    and "0 < p1_hp s" and "0 < p2_hp s"
  shows "0 < p1_hp s' \<or> 0 < p2_hp s'"
  using assms
proof (induction turns arbitrary: s)
  case Nil
  then show ?case by simp
next
  case (Cons t rest)
  obtain a mv d k where t: "t = (a, mv, d, k)" by (cases t) auto
  from attack_loop_Cons [OF Cons.prems(1) [unfolded t]] obtain res where
    stop: "defender_hp k (apply_hit rnd (a, mv, d, k) res s) \<le> 0 \<Longrightarrow>
           s' = apply_hit rnd (a, mv, d, k) res s"
    and go: "\<not> defender_hp k (apply_hit rnd (a, mv, d, k) res s) \<le> 0 \<Longrightarrow>
           attack_loop ft rng rnd rest (apply_hit rnd (a, mv, d, k) res s) = Inr s'"
    by (auto split: if_splits)
  obtain dmg eff missed where res: "res = (dmg, eff, missed)" by (cases res) auto
  let ?s3 = "apply_hit rnd (a, mv, d, k) res s"
  have other: "if k = ''p1'' then p2_hp ?s3 = p2_hp s else p1_hp ?s3 = p1_hp s"
    by (simp add: res apply_hit_fields)
  show ?case
  proof (cases "defender_hp k ?s3 \<le> 0")
    case True
    with stop have "s' = ?s3" by simp
    with other Cons.prems(2,3) show ?thesis by (auto split: if_splits)
  next
    case False
    with other Cons.prems(2,3) have "0 < p1_hp ?s3" "0 < p2_hp ?s3"
      by (auto simp: defender_hp_def split: if_splits)
    from Cons.IH [OF go [OF False] this] show ?thesis .
  qed
qed

lemma round_loop_one_stands:
  assumes "round_loop ft rng p1 m1 p2 m2 rounds s = Inr s'"
    and "0 < p1_hp s" and "0 < p2_hp s"
  shows "0 < p1_hp s' \<or> 0 < p2_hp s'"
  using assms
proof (induction rounds arbitrary: s)
  case Nil
  then show ?case by simp
next
  case (Cons rnd rest)
  from round_loop_Cons [OF Cons.prems(1)] obtain s2 where
    pr: "play_round ft rng p1 m1 p2 m2 rnd s = Inr s2"
    and stop: "p1_hp s2 \<le> 0 \<or> p2_hp s2 \<le> 0 \<Longrightarrow> s' = s2"
    and go: "\<not> (p1_hp s2 \<le> 0 \<or> p2_hp s2 \<le> 0) \<Longrightarrow> round_loop ft rng p1 m1 p2 m2 rest s2 = Inr s'"
    by (auto split: if_splits)
  from play_round_Inr [OF pr] obtain order s0 s1 where
    to: "turn_order rng p1 m1 p2 m2 s = (order, s0)"
    and al: "attack_loop ft rng rnd order s0 = Inr s1"
    and s2: "s2 = s1\<lparr>hp_history := hp_history s1 @
                      [\<lparr>round_no = rnd, pokemon_name = name p1, hp_value = p1_hp s1\<rparr>,
                       \<lparr>round_no = rnd, pokemon_name = name p2, hp_value = p2_hp s1\<rparr>]\<rparr>"
    by blast
  from turn_order_cases [OF to] Cons.prems(2,3) have "0 < p1_hp s0" "0 < p2_hp s0"
    by simp_all
  from attack_loop_one_stands [OF al this] have one: "0 < p1_hp s2 \<or> 0 < p2_hp s2"
    by (simp add: s2)
  show ?case
  proof (cases "p1_hp s2 \<le> 0 \<or> p2_hp s2 \<le> 0")
    case True
    with stop one show ?thesis by simp
  next
    case False
    then have "0 < p1_hp s2" "0 < p2_hp s2" by simp_all
    from Cons.IH [OF go [OF False] this] show ?thesis .
  qed
qed

text \<open>
  Claim C9 says that no battle returns the winner string "It's a draw!". A side may enter
  with an \<^verbatim>\<open>hp\<close> stat of 0 (the data model allows it) and still attacks: when it is the
  faster side and its first hit defeats the other side, both sides have no HP at the end of
  round 1.
\<close>

theorem draw_counterexample:
  "simulate_battle ex_types ex_rng ex_fainted ex_quick_attack ex_weak ex_tackle =
     Inr ([\<lparr>Round = 1, Attacker = ''Pikachu'', Move = ''Quick Attack'', Damage = 21,
             Effectiveness = Finite 1, Note = [], Defender_HP = 0\<rparr>],
          [\<lparr>round_no = 0, pokemon_name = ''pikachu'', hp_value = 0\<rparr>,
           \<lparr>round_no = 0, pokemon_name = ''eevee'', hp_value = 20\<rparr>,
           \<lparr>round_no = 1, pokemon_name = ''pikachu'', hp_value = 0\<rparr>,
           \<lparr>round_no = 1, pokemon_name = ''eevee'', hp_value = 0\<rparr>],
          ''It's a draw!'')"
  by code_simp

text \<open>
  Claim C9, amended. When both sides enter the battle with a positive \<^verbatim>\<open>hp\<close> stat, the
  winner string that \<^verbatim>\<open>simulate_battle\<close> returns is never "It's a draw!": it is the
  title-cased name of one side or the message of the 100-round limit.
\<close>

theorem no_simultaneous_ko:
  assumes "0 < hp (stats p1)" and "0 < hp (stats p2)"
    and "simulate_battle ft rng p1 m1 p2 m2 = Inr (evs, hist, w)"
  shows "w \<noteq> ''It's a draw!'' \<and>
         (w = title (name p1) \<or> w = title (name p2) \<or> w = limit_message)"
proof -
  from simulate_battle_Inr [OF assms(3)] obtain s where
    rl: "round_loop ft rng p1 m1 p2 m2 (map int [1..<101]) (initial_state p1 p2) = Inr s"
    and w: "w = (if p1_hp s \<le> 0 \<and> p2_hp s \<le> 0 then draw_message
                else if p1_hp s \<le> 0 then title (name p2)
                else if p2_hp s \<le> 0 then title (name p1)
                else limit_message)"
    by blast
  from assms(1,2) have "0 < p1_hp (initial_state p1 p2)" "0 < p2_hp (initial_state p1 p2)"
    by (simp_all add: initial_state_def)
  from round_loop_one_stands [OF rl this] have "\<not> (p1_hp s \<le> 0 \<and> p2_hp s \<le> 0)"
    by auto
  with w have c: "w = title (name p1) \<or> w = title (name p2) \<or> w = limit_message"
    by (auto split: if_splits)
  with title_not_draw limit_not_draw show ?thesis by metis
qed

theorem no_simultaneous_ko_witness:
  "0 < hp (stats ex_pikachu) \<and> 0 < hp (stats ex_eevee) \<and>
   simulate_battle ex_types ex_rng ex_pikachu ex_quick_attack ex_eevee ex_tackle
     = Inr (ex_battle_log, ex_hp_history, ''Eevee'') \<and>
   ''Eevee'' \<noteq> ''It's a draw!'' \<and> ''Eevee'' = title (name ex_eevee)"
proof -
  have h: "0 < hp (stats ex_pikachu)" "0 < hp (stats ex_eevee)"
    by (simp_all add: ex_pikachu_def ex_eevee_def ex_pokemon_def ex_stats_def)
  have t: "''Eevee'' = title (name ex_eevee)"
    by code_simp
  from no_simultaneous_ko [OF h ex_battle_result] h ex_battle_result t show ?thesis
    by blast
qed

subsection \<open>Powers of two are exact\<close>

lemma pow2_powi: "pow2 k = 2 powi k"
  by (simp add: pow2_def power_int_def inverse_eq_divide power_one_over)

lemma bit_length_pow2: "bit_length (2 ^ n) = Suc n"
proof (induction n)
  case 0
  show ?case by (simp add: bit_length.simps [of 1] bit_length.simps [of 0])
next
  case (Suc n)
  have "(2::int) ^ Suc n div 2 = 2 ^ n" by simp
  with Suc show ?case by (subst bit_length.simps) simp
qed

lemma bit_length_pow2_minus: "bit_length (2 ^ n - 1) = n"
proof (induction n)
  case 0
  show ?case by (simp add: bit_length.simps [of 0])
next
  case (Suc n)
  have "((2::int) ^ Suc n - 1) div 2 = 2 ^ n - 1" by simp
  moreover have "(1::int) \<le> 2 ^ n" by simp
  then have "\<not> 2 * (2::int) ^ n - 1 \<le> 0" by linarith
  then have "\<not> (2::int) ^ Suc n - 1 \<le> 0" by simp
  ultimately show ?case using Suc by (subst bit_length.simps) simp
qed

lemma ilog2_pow2: "ilog2 (pow2 k) = k"
proof (cases "0 \<le> k")
  case True
  then have "pow2 k = of_int (2 ^ nat k)" by (simp add: pow2_def)
  moreover have "(1::rat) \<le> of_int (2 ^ nat k)" by simp
  ultimately show ?thesis using True
    by (simp add: ilog2_def bit_length_pow2 del: of_int_power)
next
  case False
  then have p: "pow2 k = 1 / of_int (2 ^ nat (- k))" by (simp add: pow2_def)
  from False have "0 < nat (- k)" by simp
  then have "(1::rat) < of_int (2 ^ nat (- k))"
    by (simp add: one_less_power)
  then have lt: "\<not> (1::rat) \<le> 1 / of_int (2 ^ nat (- k))" by simp
  have "- \<lfloor>- (1 / (1 / (of_int (2 ^ nat (- k)) :: rat)))\<rfloor> = 2 ^ nat (- k)"
    by (simp del: of_int_power)
  with lt False show ?thesis
    unfolding p ilog2_def by (simp add: bit_length_pow2_minus del: of_int_power)
qed

lemma round_half_even_int: "round_half_even (of_int z) = z"
  by (simp add: round_half_even_def)

lemma round_double_pow2:
  assumes "- 1074 \<le> k" and "k \<le> 1023"
  shows "round_double (pow2 k) = Finite (pow2 k)"
proof -
  define q where "q = max (k - 52) (- 1074)"
  have q: "q \<le> k" "k - q \<le> 52" using assms by (simp_all add: q_def)
  have pos: "0 < pow2 k" by (rule pow2_pos)
  have "pow2 k / pow2 q = (2::rat) powi (k - q)"
    by (simp add: pow2_powi power_int_diff)
  also have "\<dots> = 2 ^ nat (k - q)"
    using q by (simp add: power_int_def)
  finally have d: "pow2 k / pow2 q = of_int (2 ^ nat (k - q))"
    by simp
  have m: "round_half_even (pow2 k / pow2 q) = 2 ^ nat (k - q)"
    unfolding d by (rule round_half_even_int)
  have "(2::int) ^ nat (k - q) \<le> 2 ^ 52"
    using q by (intro power_increasing) simp_all
  then have small: "\<not> (2::int) ^ 53 \<le> 2 ^ nat (k - q)" by simp
  have prod: "of_int (2 ^ nat (k - q)) * pow2 q = pow2 k"
    using d pow2_pos [of q] by (simp add: field_simps)
  from pos assms small show ?thesis
    unfolding round_double_def
    by (simp add: ilog2_pow2 Let_def q_def [symmetric] m prod del: of_int_power)
qed

subsection \<open>The multiplier is the product of the factors\<close>

lemma pow2_add: "pow2 (a + b) = pow2 a * pow2 b"
  by (simp add: pow2_powi power_int_add)

lemma pow2_numerals: "pow2 0 = 1" "pow2 1 = 2" "pow2 (- 1) = 1 / 2"
  by (simp_all add: pow2_def)

lemma two_power_withinI: "- int n \<le> k \<Longrightarrow> k \<le> int n \<Longrightarrow> two_power_within n (pow2 k)"
  unfolding two_power_within_def by blast

lemma type_step_exact:
  assumes "two_power_within n e" and "n < 1023"
  shows "type_step td (Finite e) d = Finite (e * type_factor td d) \<and>
         two_power_within (Suc n) (e * type_factor td d)"
proof (cases "e = 0")
  case True
  then show ?thesis
    by (simp add: type_step_def type_factor_def round_double_0 two_power_within_def)
next
  case False
  with assms(1) obtain k where k: "- int n \<le> k" "k \<le> int n" and e: "e = pow2 k"
    by (auto simp: two_power_within_def)
  have up: "pow2 k * 2 = pow2 (k + 1)" and down: "pow2 k / 2 = pow2 (k - 1)"
    using pow2_add [of k 1] pow2_add [of k "- 1"] by (simp_all add: pow2_numerals)
  have r_up: "round_double (pow2 (k + 1)) = Finite (pow2 (k + 1))"
    using k assms(2) by (intro round_double_pow2) simp_all
  have r_down: "round_double (pow2 (k - 1)) = Finite (pow2 (k - 1))"
    using k assms(2) by (intro round_double_pow2) simp_all
  have w_up: "two_power_within (Suc n) (pow2 (k + 1))"
    and w_down: "two_power_within (Suc n) (pow2 (k - 1))"
    and w_same: "two_power_within (Suc n) (pow2 k)"
    using k by (auto intro!: two_power_withinI)
  have w_zero: "two_power_within (Suc n) 0"
    by (simp add: two_power_within_def)
  show ?thesis
    unfolding type_step_def type_factor_def e
    by (simp add: up down r_up r_down w_up w_down w_same w_zero round_double_0)
qed

lemma foldl_type_step_exact:
  "two_power_within n e \<Longrightarrow> n + length ds \<le> 1023 \<Longrightarrow>
   foldl (type_step td) (Finite e) ds = Finite (e * prod_list (map (type_factor td) ds))"
proof (induction ds arbitrary: e n)
  case Nil
  then show ?case by simp
next
  case (Cons d ds)
  from Cons.prems(2) have n: "n < 1023" and rest: "Suc n + length ds \<le> 1023" by simp_all
  from type_step_exact [OF Cons.prems(1) n, of td d]
  have st: "type_step td (Finite e) d = Finite (e * type_factor td d)"
    and w: "two_power_within (Suc n) (e * type_factor td d)"
    by simp_all
  from Cons.IH [OF w rest] show ?case
    by (simp add: st mult.assoc)
qed

lemma two_factor_products:
  assumes "length ds \<le> 2"
  shows "prod_list (map (type_factor td) ds) \<in> {0, 1 / 4, 1 / 2, 1, 2, 4}"
proof -
  from assms consider "ds = []" | a where "ds = [a]" | a b where "ds = [a, b]"
    by (cases ds rule: list.exhaust; cases "tl ds"; cases "tl (tl ds)") auto
  then show ?thesis
  proof cases
    case 1
    then show ?thesis by simp
  next
    case 2
    show ?thesis
      unfolding 2 by (simp add: type_factor_def)
  next
    case 3
    show ?thesis
      unfolding 3 by (simp add: type_factor_def)
  qed
qed

text \<open>
  Claim C7. When the lookup of the attacking type fails, the multiplier is exactly 1.0.
  Otherwise it is the product, over the defending types, of the factor of each type (2,
  0.5, 0 or 1, by the first relation that lists the type); the floats are exact for up to
  1023 defending types. With at most two defending types the product is one of 0, 0.25, 0.5,
  1, 2 and 4.
\<close>

theorem type_effectiveness_product:
  "(fetch_type t = None \<longrightarrow> get_type_effectiveness fetch_type t ds = Finite 1) \<and>
   (fetch_type t = Some td \<and> length ds \<le> 1023 \<longrightarrow>
      get_type_effectiveness fetch_type t ds = Finite (prod_list (map (type_factor td) ds))) \<and>
   (fetch_type t = Some td \<and> length ds \<le> 2 \<longrightarrow>
      prod_list (map (type_factor td) ds) \<in> {0, 1 / 4, 1 / 2, 1, 2, 4})"
proof -
  have "two_power_within 0 1"
    using two_power_withinI [of 0 0] by (simp add: pow2_numerals)
  from foldl_type_step_exact [OF this, of ds td] two_factor_products [of ds td]
  show ?thesis
    by (simp add: get_type_effectiveness_def)
qed

theorem type_effectiveness_product_witness:
  "ex_types ''fairy'' = None \<and>
   get_type_effectiveness ex_types ''fairy'' [''rock'', ''steel''] = Finite 1 \<and>
   ex_types ''normal'' = Some \<lparr>double_damage_to = [], half_damage_to = [''rock'', ''steel''],
                 no_damage_to = [''ghost'']\<rparr> \<and>
   length [''rock'', ''steel''] \<le> (2::nat) \<and>
   get_type_effectiveness ex_types ''normal'' [''rock'', ''steel''] = Finite (1 / 4)"
proof -
  let ?td = "\<lparr>double_damage_to = [], half_damage_to = [''rock'', ''steel''],
                 no_damage_to = [''ghost'']\<rparr>"
  have a: "ex_types ''fairy'' = None" and b: "ex_types ''normal'' = Some ?td"
    by (simp_all add: ex_types_def)
  have p: "prod_list (map (type_factor ?td) [''rock'', ''steel'']) = 1 / 4"
    by (simp add: type_factor_def)
  from type_effectiveness_product [of ex_types "''fairy''" "[''rock'', ''steel'']" ?td]
    type_effectiveness_product [of ex_types "''normal''" "[''rock'', ''steel'']" ?td]
    a b p
  show ?thesis by simp
qed

subsection \<open>Values in range are rounded to finite floats\<close>

lemma bit_length_le: "n < 2 ^ k \<Longrightarrow> bit_length n \<le> k"
proof (induction k arbitrary: n)
  case 0
  then show ?case by (simp add: bit_length.simps [of n])
next
  case (Suc k)
  show ?case
  proof (cases "n \<le> 0")
    case True
    then show ?thesis by (simp add: bit_length.simps [of n])
  next
    case False
    from Suc.prems have "n div 2 < 2 ^ k" by simp
    from Suc.IH [OF this] False show ?thesis
      by (simp add: bit_length.simps [of n])
  qed
qed

lemma pow2_mono: "a \<le> b \<Longrightarrow> pow2 a \<le> pow2 b"
  by (simp add: pow2_powi power_int_increasing)

lemma pow2_nat: "pow2 (int k) = 2 ^ k"
  by (simp add: pow2_def)

lemma ilog2_less:
  assumes "x < pow2 (int k)" and "1 \<le> k"
  shows "ilog2 x < int k"
proof (cases "1 \<le> x")
  case True
  from assms(1) have "x < of_int (2 ^ k)" by (simp add: pow2_nat)
  then have "\<lfloor>x\<rfloor> < 2 ^ k" by (simp only: floor_less_iff)
  then have "bit_length \<lfloor>x\<rfloor> \<le> k" by (rule bit_length_le)
  moreover have "0 < bit_length \<lfloor>x\<rfloor>"
    using True by (simp add: bit_length.simps [of "\<lfloor>x\<rfloor>"])
  ultimately show ?thesis using True by (simp add: ilog2_def)
next
  case False
  with assms(2) show ?thesis by (simp add: ilog2_def)
qed

lemma round_half_even_le: "of_int (round_half_even x) \<le> x + 1"
proof -
  have a: "(of_int \<lfloor>x\<rfloor> :: rat) \<le> x + 1"
    using of_int_floor_le [of x] by linarith
  have b: "(of_int (\<lfloor>x\<rfloor> + 1) :: rat) \<le> x + 1"
    by simp
  have "round_half_even x = \<lfloor>x\<rfloor> \<or> round_half_even x = \<lfloor>x\<rfloor> + 1"
    by (simp add: round_half_even_def Let_def)
  with a b show ?thesis by metis
qed

lemma round_double_finite:
  assumes "0 \<le> x" and "x < pow2 (int k)" and "1 \<le> k" and "k \<le> 1023"
  shows "\<exists>y. round_double x = Finite y \<and> 0 \<le> y \<and> y < pow2 (int k + 1)"
proof (cases "x = 0")
  case True
  then show ?thesis by (simp add: round_double_0 pow2_pos)
next
  case False
  with assms(1) have pos: "0 < x" by simp
  define q where "q = max (ilog2 x - 52) (- 1074)"
  define m where "m = round_half_even (x / pow2 q)"
  from ilog2_less [OF assms(2,3)] assms(4) have e: "ilog2 x < int k" "ilog2 x \<le> 1022"
    by simp_all
  then have "q \<le> int k" by (simp add: q_def)
  then have pq: "pow2 q \<le> pow2 (int k)" by (rule pow2_mono)
  have m0: "0 \<le> m"
    unfolding m_def using pos pow2_pos [of q] by (intro round_half_even_nonneg) simp
  have "of_int m \<le> x / pow2 q + 1"
    unfolding m_def by (rule round_half_even_le)
  then have "of_int m * pow2 q \<le> (x / pow2 q + 1) * pow2 q"
    using pow2_pos [of q] by (simp add: mult_right_mono)
  also have "\<dots> = x + pow2 q"
    using pow2_pos [of q] by (simp add: field_simps)
  also have "\<dots> < pow2 (int k) + pow2 (int k)"
    using assms(2) pq by simp
  also have "\<dots> = pow2 (int k + 1)"
    by (simp add: pow2_add pow2_numerals)
  finally have up: "of_int m * pow2 q < pow2 (int k + 1)" .
  have lo: "0 \<le> of_int m * pow2 q"
    using m0 pow2_pos [of q] by simp
  from pos e have "round_double x = Finite (of_int m * pow2 q)"
    by (simp add: round_double_def Let_def q_def m_def)
  with up lo show ?thesis by simp
qed

lemma finite_belowI: "0 \<le> y \<Longrightarrow> y < pow2 (int k) \<Longrightarrow> finite_below k (Finite y)"
  by (simp add: finite_below_def)

lemma round_double_below:
  assumes "0 \<le> x" and "x < pow2 (int k)" and "1 \<le> k" and "k \<le> 1023"
  shows "finite_below (Suc k) (round_double x)"
  using round_double_finite [OF assms] by (auto simp: finite_below_def add.commute)

lemma int_to_float_below:
  assumes "0 \<le> n" and "n < 2 ^ k" and "1 \<le> k" and "k \<le> 1023"
  shows "\<exists>f. int_to_float n = Inr f \<and> finite_below (Suc k) f"
proof -
  from assms(2) have "(of_int n :: rat) < of_int (2 ^ k)" by (simp only: of_int_less_iff)
  then have "(of_int n :: rat) < pow2 (int k)" by (simp add: pow2_nat)
  with assms have "finite_below (Suc k) (round_double (of_int n))"
    by (intro round_double_below) simp_all
  then show ?thesis
    by (auto simp: int_to_float_def finite_below_def)
qed

lemma divide_le_self: "0 \<le> a \<Longrightarrow> 1 \<le> c \<Longrightarrow> a / c \<le> (a::rat)"
proof -
  assume a: "0 \<le> a" and c: "1 \<le> c"
  from mult_left_mono [OF c a] have "a \<le> a * c" by simp
  with c show ?thesis by (simp add: pos_divide_le_eq)
qed

lemma int_truediv_below:
  assumes "0 \<le> a" and "a < 2 ^ k" and "0 < b" and "1 \<le> k" and "k \<le> 1023"
  shows "\<exists>f. int_truediv a b = Inr f \<and> finite_below (Suc k) f"
proof -
  from assms(2) have "(of_int a :: rat) < of_int (2 ^ k)" by (simp only: of_int_less_iff)
  then have a: "(of_int a :: rat) < pow2 (int k)" by (simp add: pow2_nat)
  from assms(3) have "(1::rat) \<le> of_int b" by simp
  with assms(1) have "(of_int a :: rat) / of_int b \<le> of_int a"
    by (intro divide_le_self) simp_all
  with a have "(of_int a :: rat) / of_int b < pow2 (int k)" by simp
  moreover have "0 \<le> (of_int a :: rat) / of_int b" using assms(1,3) by simp
  ultimately have "finite_below (Suc k) (round_double (of_int a / of_int b))"
    using assms(4,5) by (intro round_double_below) simp_all
  with assms(3) show ?thesis
    by (auto simp: int_truediv_def finite_below_def)
qed

lemma float_mul_below:
  assumes "finite_below j x" and "finite_below k y" and "1 \<le> j + k" and "j + k \<le> 1023"
  shows "finite_below (Suc (j + k)) (float_mul x y)"
proof -
  from assms(1,2) obtain a b where x: "x = Finite a" "0 \<le> a" "a < pow2 (int j)"
    and y: "y = Finite b" "0 \<le> b" "b < pow2 (int k)"
    by (auto simp: finite_below_def)
  have "a * b < pow2 (int j) * pow2 (int k)"
    using x y pow2_pos [of "int j"] by (intro mult_strict_mono') simp_all
  then have "a * b < pow2 (int (j + k))" by (simp add: pow2_add)
  moreover have "0 \<le> a * b" using x y by simp
  ultimately show ?thesis
    unfolding x y using assms(3,4) by (simp add: round_double_below)
qed

lemma finite_below_mono: "finite_below j x \<Longrightarrow> j \<le> k \<Longrightarrow> finite_below k x"
  using pow2_mono [of "int j" "int k"] by (fastforce simp: finite_below_def)

lemma float_add_below:
  assumes "finite_below k x" and "finite_below k y" and "Suc k \<le> 1023"
  shows "finite_below (Suc (Suc k)) (float_add x y)"
proof -
  from assms(1,2) obtain a b where x: "x = Finite a" "0 \<le> a" "a < pow2 (int k)"
    and y: "y = Finite b" "0 \<le> b" "b < pow2 (int k)"
    by (auto simp: finite_below_def)
  have "a + b < pow2 (int k) + pow2 (int k)" using x y by simp
  also have "\<dots> = pow2 (int (Suc k))" by (simp add: pow2_add pow2_numerals)
  finally have "a + b < pow2 (int (Suc k))" .
  moreover have "0 \<le> a + b" using x y by simp
  ultimately show ?thesis
    unfolding x y using assms(3) by (simp add: round_double_below)
qed

lemma float_div_below:
  assumes "finite_below k x" and "1 \<le> c" and "1 \<le> k" and "k \<le> 1023"
  shows "\<exists>z. float_div x (Finite c) = Inr z \<and> finite_below (Suc k) z"
proof -
  from assms(1) obtain a where x: "x = Finite a" "0 \<le> a" "a < pow2 (int k)"
    by (auto simp: finite_below_def)
  from x(2) assms(2) have "a / c \<le> a"
    by (rule divide_le_self)
  with x have "a / c < pow2 (int k)" "0 \<le> a / c" using assms(2) by simp_all
  then have "finite_below (Suc k) (round_double (a / c))"
    using assms(3,4) by (intro round_double_below) simp_all
  with assms(2) show ?thesis by (simp add: x)
qed

lemma py_int_below: "finite_below k x \<Longrightarrow> \<exists>d. py_int x = Inr d"
  by (auto simp: finite_below_def py_int_def)

subsection \<open>Bounded profiles never raise\<close>

lemma constant_floats:
  "int_truediv (2 * LEVEL) 5 = Inr (Finite 20)" "int_to_float 2 = Inr (Finite 2)"
  "int_to_float 50 = Inr (Finite 50)" "float_add (Finite 20) (Finite 2) = Finite 22"
  by code_simp+

lemma damage_value_returns:
  assumes "0 \<le> p" and "p < 2 ^ 64" and "0 \<le> atk" and "atk < 2 ^ 64" and "0 < dfn"
    and "finite_below 3 eff"
  shows "\<exists>v. damage_value (Some p) atk dfn eff = Inr v \<and> finite_below 149 v"
proof -
  from int_to_float_below [OF assms(1,2)] obtain pf where
    pf: "int_to_float p = Inr pf" "finite_below 65 pf" by auto
  from int_truediv_below [OF assms(3,4,5)] obtain ratio where
    ratio: "int_truediv atk dfn = Inr ratio" "finite_below 65 ratio" by auto
  have l2: "finite_below 5 (Finite 22)"
    by (simp add: finite_below_def pow2_def)
  have two: "finite_below 2 (Finite 2)"
    by (simp add: finite_below_def pow2_def)
  have t1: "finite_below 71 (float_mul (Finite 22) pf)"
    using float_mul_below [OF l2 pf(2)] by simp
  have t2: "finite_below 137 (float_mul (float_mul (Finite 22) pf) ratio)"
    using float_mul_below [OF t1 ratio(2)] by simp
  from float_div_below [OF t2, of 50] obtain t3 where
    t3: "float_div (float_mul (float_mul (Finite 22) pf) ratio) (Finite 50) = Inr t3"
    "finite_below 138 t3" by auto
  have t4: "finite_below 140 (float_add t3 (Finite 2))"
    using float_add_below [OF t3(2) finite_below_mono [OF two]] by simp
  have t5: "finite_below 144 (float_mul (float_add t3 (Finite 2)) eff)"
    using float_mul_below [OF t4 assms(6)] by simp
  have "damage_value (Some p) atk dfn eff = Inr (float_mul (float_add t3 (Finite 2)) eff)"
    by (simp add: damage_value_def constant_floats pybind_simps pf ratio t3 Let_def
        del: float_add.simps float_mul.simps float_div.simps)
  with finite_below_mono [OF t5, of 149] show ?thesis by simp
qed

lemma get_type_effectiveness_below:
  assumes "length dts \<le> 2"
  shows "finite_below 3 (get_type_effectiveness ft t dts)"
proof (cases "ft t")
  case None
  then show ?thesis
    by (simp add: get_type_effectiveness_def finite_below_def pow2_def)
next
  case (Some td)
  have w: "two_power_within 0 1"
    using two_power_withinI [of 0 0] by (simp add: pow2_numerals)
  from assms have "0 + length dts \<le> 1023" by simp
  from foldl_type_step_exact [OF w this, of td] Some
  have e: "get_type_effectiveness ft t dts = Finite (prod_list (map (type_factor td) dts))"
    by (simp add: get_type_effectiveness_def)
  from two_factor_products [OF assms, of td]
  have "0 \<le> prod_list (map (type_factor td) dts) \<and> prod_list (map (type_factor td) dts) < 8"
    by auto
  then show ?thesis
    unfolding e by (simp add: finite_below_def pow2_def)
qed

lemma accuracy_check_returns:
  assumes "case acc of None \<Rightarrow> True | Some a \<Rightarrow> 0 \<le> a \<and> a < 2 ^ 64"
  shows "\<exists>lands. accuracy_check (resolve_accuracy acc) r = Inr lands"
proof -
  from assms have "0 \<le> resolve_accuracy acc \<and> resolve_accuracy acc < 2 ^ 64"
    by (auto simp: resolve_accuracy_def split: option.splits)
  then obtain f where "int_truediv (resolve_accuracy acc) 100 = Inr f"
    using int_truediv_below [of "resolve_accuracy acc" 64 100] by auto
  then show ?thesis
    by (simp add: accuracy_check_def pybind_simps)
qed

lemma calculate_damage_returns:
  assumes "bounded_stats ast" and "bounded_stats dst" and "bounded_move md"
    and "length dts \<le> 2"
  shows "\<exists>res. calculate_damage ft ast dst dts md r = Inr res"
proof -
  from assms(3) obtain p where p: "move_power md = Some p" "0 \<le> p" "p < 2 ^ 64"
    and acc: "case accuracy md of None \<Rightarrow> True | Some a \<Rightarrow> 0 \<le> a \<and> a < 2 ^ 64"
    by (auto simp: bounded_move_def split: option.splits)
  from accuracy_check_returns [OF acc] obtain lands where
    l: "accuracy_check (resolve_accuracy (accuracy md)) r = Inr lands" by blast
  from assms(1,2) have a: "0 \<le> chosen_attack md ast" "chosen_attack md ast < 2 ^ 64"
    and d: "0 < chosen_defense md dst"
    by (simp_all add: bounded_stats_def chosen_attack_def chosen_defense_def)
  from damage_value_returns [OF p(2,3) a d get_type_effectiveness_below [OF assms(4)]]
  obtain v where v: "damage_value (Some p) (chosen_attack md ast) (chosen_defense md dst)
      (get_type_effectiveness ft (move_type md) dts) = Inr v" "finite_below 149 v"
    by blast
  from py_int_below [OF v(2)] obtain dm where dm: "py_int v = Inr dm" by blast
  show ?thesis
    unfolding calculate_damage_unfold
    by (cases lands) (simp_all add: l p v dm pybind_simps)
qed

lemma attack_loop_returns:
  assumes "\<forall>t\<in>set turns. case t of (a, mv, d, k) \<Rightarrow>
             battle_ready a \<and> battle_ready d \<and> bounded_move mv"
  shows "\<exists>s'. attack_loop ft rng rnd turns s = Inr s'"
  using assms
proof (induction turns arbitrary: s)
  case Nil
  then show ?case by simp
next
  case (Cons t rest)
  obtain a mv d k where t: "t = (a, mv, d, k)" by (cases t) auto
  from Cons.prems have ok: "bounded_stats (stats a)" "bounded_stats (stats d)" "bounded_move mv"
    "length (types d) \<le> 2"
    by (simp_all add: t battle_ready_def)
  from calculate_damage_returns [OF ok, of ft "rng (draws s)"] obtain res where
    res: "calculate_damage ft (stats a) (stats d) (types d) mv (rng (draws s)) = Inr res"
    by blast
  from Cons.prems have "\<forall>t\<in>set rest. case t of (a, mv, d, k) \<Rightarrow>
             battle_ready a \<and> battle_ready d \<and> bounded_move mv"
    by simp
  from Cons.IH [OF this, of "apply_hit rnd (a, mv, d, k) res s"] show ?case
    by (simp add: t res Let_def)
qed

lemma play_round_returns:
  assumes "battle_ready p1" and "battle_ready p2" and "bounded_move m1" and "bounded_move m2"
  shows "\<exists>s2. play_round ft rng p1 m1 p2 m2 rnd s = Inr s2"
proof -
  obtain order s0 where to: "turn_order rng p1 m1 p2 m2 s = (order, s0)"
    by (cases "turn_order rng p1 m1 p2 m2 s") auto
  from turn_order_cases [OF to] assms
  have "\<forall>t\<in>set order. case t of (a, mv, d, k) \<Rightarrow>
             battle_ready a \<and> battle_ready d \<and> bounded_move mv"
    by auto
  from attack_loop_returns [OF this, of ft rng rnd s0] show ?thesis
    by (auto simp: play_round_def to)
qed

lemma round_loop_returns:
  assumes "battle_ready p1" and "battle_ready p2" and "bounded_move m1" and "bounded_move m2"
  shows "\<exists>s'. round_loop ft rng p1 m1 p2 m2 rounds s = Inr s'"
proof (induction rounds arbitrary: s)
  case Nil
  show ?case by simp
next
  case (Cons rnd rest)
  from play_round_returns [OF assms, of ft rng rnd s] obtain s2 where
    "play_round ft rng p1 m1 p2 m2 rnd s = Inr s2" by blast
  with Cons.IH [of s2] show ?case by simp
qed

lemma simulate_battle_returns:
  assumes "battle_ready p1" and "battle_ready p2" and "bounded_move m1" and "bounded_move m2"
  shows "\<exists>evs hist w. simulate_battle ft rng p1 m1 p2 m2 = Inr (evs, hist, w)"
proof -
  from round_loop_returns [OF assms, of ft rng "map int [1..<101]" "initial_state p1 p2"]
  obtain s where "round_loop ft rng p1 m1 p2 m2 (map int [1..<101]) (initial_state p1 p2) = Inr s"
    by blast
  then show ?thesis
    by (simp add: simulate_battle_def Let_def)
qed

text \<open>
  Claim C6. \<^verbatim>\<open>simulate_battle\<close> is a total function: its loops run over
  \<^verbatim>\<open>range(1, 101)\<close> and over the two turns of a round. On bounded profiles it returns
  a result (no operation raises), and whenever it returns, some number \<open>n \<le> 100\<close> of
  rounds was executed: the HP trace holds exactly the pairs of samples of the rounds
  \<open>0, \<dots>, n\<close>, every logged turn bears a round number from 1 to \<open>n\<close>, and at most
  two turns are logged per round.
\<close>

theorem battle_within_100_rounds:
  "(battle_ready p1 \<and> battle_ready p2 \<and> bounded_move m1 \<and> bounded_move m2 \<longrightarrow>
      (\<exists>evs hist w. simulate_battle ft rng p1 m1 p2 m2 = Inr (evs, hist, w))) \<and>
   (simulate_battle ft rng p1 m1 p2 m2 = Inr (evs, hist, w) \<longrightarrow>
      (\<exists>n\<le>100.
         map round_no hist = concat (map (\<lambda>k. [int k, int k]) [0..<Suc n]) \<and>
         (\<forall>e\<in>set evs. 1 \<le> Round e \<and> Round e \<le> int n) \<and>
         (\<forall>h\<in>set hist. 0 \<le> round_no h \<and> round_no h \<le> 100) \<and>
         length evs \<le> 2 * n))"
  using simulate_battle_returns [of p1 p2 m1 m2 ft rng]
    simulate_battle_rounds [of ft rng p1 m1 p2 m2 evs hist w]
  by blast

theorem battle_within_100_rounds_witness:
  "battle_ready ex_pikachu \<and> battle_ready ex_eevee \<and>
   bounded_move ex_quick_attack \<and> bounded_move ex_tackle \<and>
   simulate_battle ex_types ex_rng ex_pikachu ex_quick_attack ex_eevee ex_tackle
     = Inr (ex_battle_log, ex_hp_history, ''Eevee'') \<and>
   (\<exists>n. n \<le> 100 \<and>
      map round_no ex_hp_history = concat (map (\<lambda>k. [int k, int k]) [0..<Suc n]) \<and>
      list_all (\<lambda>e. 1 \<le> Round e \<and> Round e \<le> int n) ex_battle_log \<and>
      list_all (\<lambda>h. 0 \<le> round_no h \<and> round_no h \<le> 100) ex_hp_history \<and>
      length ex_battle_log \<le> 2 * n)"
proof -
  have r: "battle_ready ex_pikachu" "battle_ready ex_eevee"
    "bounded_move ex_quick_attack" "bounded_move ex_tackle"
    by (simp_all add: battle_ready_def bounded_stats_def bounded_move_def ex_pikachu_def
        ex_eevee_def ex_quick_attack_def ex_tackle_def ex_pokemon_def ex_stats_def ex_move_def)
  from battle_within_100_rounds
    [of ex_pikachu ex_eevee ex_quick_attack ex_tackle ex_types ex_rng
      ex_battle_log ex_hp_history "''Eevee''"]
    ex_battle_result r
  show ?thesis by (simp add: list_all_iff)
qed

section \<open>The rounding function rounds to nearest\<close>

lemma bit_length_lower: "0 < n \<Longrightarrow> 2 ^ (bit_length n - 1) \<le> n"
proof (induction n rule: bit_length.induct)
  case (1 n)
  show ?case
  proof (cases "n div 2 \<le> 0")
    case True
    with "1.prems" have "n = 1" by linarith
    then show ?thesis by (simp add: bit_length.simps [of 1] bit_length.simps [of 0])
  next
    case False
    then have pos: "0 < n div 2" by simp
    with "1.IH" "1.prems" have ih: "2 ^ (bit_length (n div 2) - 1) \<le> n div 2" by simp
    have "0 < bit_length (n div 2)"
      using pos by (simp add: bit_length.simps [of "n div 2"])
    then have "bit_length n - 1 = Suc (bit_length (n div 2) - 1)"
      using "1.prems" by (simp add: bit_length.simps [of n])
    then have "(2::int) ^ (bit_length n - 1) = 2 * 2 ^ (bit_length (n div 2) - 1)" by simp
    also have "\<dots> \<le> 2 * (n div 2)" using ih by simp
    also have "\<dots> \<le> n" by simp
    finally show ?thesis .
  qed
qed

lemma bit_length_upper: "n < 2 ^ bit_length n"
proof (induction n rule: bit_length.induct)
  case (1 n)
  show ?case
  proof (cases "n \<le> 0")
    case True
    then have "n < 1" by simp
    also have "(1::int) \<le> 2 ^ bit_length n" by simp
    finally show ?thesis .
  next
    case False
    with "1.IH" have "n div 2 < 2 ^ bit_length (n div 2)" by simp
    then have "n < 2 * 2 ^ bit_length (n div 2)" by linarith
    with False show ?thesis by (simp add: bit_length.simps [of n])
  qed
qed

lemma ilog2_correct:
  assumes "0 < x"
  shows "pow2 (ilog2 x) \<le> x \<and> x < pow2 (ilog2 x + 1)"
proof (cases "1 \<le> x")
  case True
  define n where "n = \<lfloor>x\<rfloor>"
  from True have n: "0 < n" by (simp add: n_def)
  then have b: "0 < bit_length n" by (simp add: bit_length.simps [of n])
  from True have e: "ilog2 x = int (bit_length n - 1)"
    using b by (simp add: ilog2_def n_def)
  have "(of_int (2 ^ (bit_length n - 1)) :: rat) \<le> of_int n"
    using bit_length_lower [OF n] by (simp only: of_int_le_iff)
  also have "\<dots> \<le> x" by (simp add: n_def)
  finally have lo: "pow2 (ilog2 x) \<le> x" by (simp add: e pow2_nat)
  have "n + 1 \<le> 2 ^ bit_length n" using bit_length_upper [of n] by simp
  then have "(of_int (n + 1) :: rat) \<le> of_int (2 ^ bit_length n)" by (simp only: of_int_le_iff)
  moreover have "x < of_int (n + 1)" using floor_correct [of x] by (simp add: n_def)
  ultimately have "x < of_int (2 ^ bit_length n)" by simp
  moreover have "ilog2 x + 1 = int (bit_length n)" using b by (simp add: e)
  ultimately have "x < pow2 (ilog2 x + 1)" by (simp add: pow2_nat)
  with lo show ?thesis by simp
next
  case False
  define z where "z = 1 / x"
  define c where "c = - \<lfloor>- z\<rfloor>"
  define j where "j = bit_length (c - 1)"
  from assms False have z: "1 < z" by (simp add: z_def)
  have cz: "z \<le> of_int c" "of_int c < z + 1"
    unfolding c_def by linarith+
  from z cz have c: "0 < c - 1" by linarith
  from False have e: "ilog2 x = - int j" by (simp add: ilog2_def z_def c_def j_def)
  from c have jpos: "0 < j" by (simp add: j_def bit_length.simps [of "c - 1"])
  have "c - 1 < 2 ^ j" unfolding j_def by (rule bit_length_upper)
  then have "c \<le> 2 ^ j" by simp
  then have "(of_int c :: rat) \<le> of_int (2 ^ j)" by (simp only: of_int_le_iff)
  then have "(of_int c :: rat) \<le> 2 ^ j" by simp
  with cz(1) have zu: "z \<le> 2 ^ j" by linarith
  have "2 ^ (j - 1) \<le> c - 1" unfolding j_def using c by (rule bit_length_lower)
  then have "(of_int (2 ^ (j - 1)) :: rat) \<le> of_int (c - 1)" by (simp only: of_int_le_iff)
  then have "(2::rat) ^ (j - 1) \<le> of_int c - 1" by simp
  with cz(2) have zl: "2 ^ (j - 1) < z" by linarith
  have x: "x = 1 / z" using assms by (simp add: z_def)
  have "1 / 2 ^ j \<le> 1 / z"
    using zu z by (intro divide_left_mono) simp_all
  then have lo: "pow2 (ilog2 x) \<le> x"
    using jpos by (simp add: e pow2_def x [symmetric])
  have "1 / z < 1 / 2 ^ (j - 1)"
    using zl z by (intro divide_strict_left_mono) simp_all
  moreover have "pow2 (ilog2 x + 1) = 1 / 2 ^ (j - 1)"
    using jpos by (cases j) (simp_all add: e pow2_def)
  ultimately have "x < pow2 (ilog2 x + 1)" by (simp add: x [symmetric])
  with lo show ?thesis by simp
qed

lemma round_half_even_near: "\<bar>of_int (round_half_even x) - x\<bar> \<le> 1 / 2"
proof -
  have "of_int \<lfloor>x\<rfloor> \<le> x" "x < of_int \<lfloor>x\<rfloor> + 1" by linarith+
  then show ?thesis
    unfolding round_half_even_def Let_def by (auto simp: abs_le_iff)
qed

lemma round_double_nearest:
  assumes "round_double x = Finite y"
  shows "\<bar>y - x\<bar> \<le> pow2 (max (ilog2 \<bar>x\<bar> - 52) (- 1074)) / 2"
proof (cases "x = 0")
  case True
  with assms show ?thesis by (simp add: round_double_0 pow2_pos less_imp_le)
next
  case False
  define q where "q = max (ilog2 \<bar>x\<bar> - 52) (- 1074)"
  define m where "m = round_half_even (\<bar>x\<bar> / pow2 q)"
  have near: "\<bar>of_int m * pow2 q - \<bar>x\<bar>\<bar> \<le> pow2 q / 2"
  proof -
    have "\<bar>of_int m * pow2 q - \<bar>x\<bar>\<bar> = \<bar>of_int m - \<bar>x\<bar> / pow2 q\<bar> * pow2 q"
      using pow2_pos [of q] by (simp add: abs_mult [symmetric] field_simps)
    also have "\<dots> \<le> (1 / 2) * pow2 q"
      unfolding m_def using pow2_pos [of q] round_half_even_near [of "\<bar>x\<bar> / pow2 q"]
      by (intro mult_right_mono) simp_all
    finally show ?thesis by simp
  qed
  from assms False have "y = (if 0 < x then of_int m * pow2 q else - (of_int m * pow2 q))"
    by (simp add: round_double_def Let_def q_def m_def split: if_splits)
  with near False show ?thesis
    unfolding q_def [symmetric] by (cases "0 < x") (simp_all add: abs_if split: if_splits)
qed

text \<open>
  The test for overflow in \<open>round_double\<close> is the comparison of the rounded magnitude
  with \<open>2 ^ 1024\<close>.
\<close>

lemma round_half_even_floor: "\<lfloor>x\<rfloor> \<le> round_half_even x"
  by (simp add: round_half_even_def Let_def)

lemma overflow_test:
  assumes "0 < x"
  defines "e \<equiv> ilog2 x"
  defines "q \<equiv> max (e - 52) (- 1074)"
  defines "m \<equiv> round_half_even (x / pow2 q)"
  shows "(1023 < e \<or> (e = 1023 \<and> 2 ^ 53 \<le> m)) \<longleftrightarrow> pow2 1024 \<le> of_int m * pow2 q"
proof -
  from ilog2_correct [OF assms(1)] have lo: "pow2 e \<le> x" and hi: "x < pow2 (e + 1)"
    by (simp_all add: e_def)
  have qpos: "0 < pow2 q" by (rule pow2_pos)
  have p53: "pow2 53 = 2 ^ 53" and p52: "pow2 52 = 2 ^ 52"
    by (simp_all add: pow2_def)
  show ?thesis
  proof (cases "e \<le> 1022")
    case True
    then have q: "q \<le> 970" "e + 1 - q \<le> 53" by (simp_all add: q_def)
    have "x / pow2 q < pow2 (e + 1) / pow2 q"
      using hi qpos by (simp add: divide_strict_right_mono)
    also have "\<dots> = pow2 (e + 1 - q)"
      using pow2_add [of "e + 1 - q" q] qpos by (simp add: field_simps)
    also have "\<dots> \<le> pow2 53" using q(2) by (rule pow2_mono)
    finally have "x / pow2 q < 2 ^ 53" by (simp add: p53)
    then have "of_int m < (2 ^ 53 + 1 :: rat)"
      using round_half_even_le [of "x / pow2 q"] unfolding m_def by linarith
    then have "(of_int m :: rat) < of_int (2 ^ 53 + 1)" by simp
    then have "m < 2 ^ 53 + 1" by (simp only: of_int_less_iff)
    then have "m \<le> 2 ^ 53" by simp
    then have "(of_int m :: rat) \<le> of_int (2 ^ 53)" by (simp only: of_int_le_iff)
    then have "(of_int m :: rat) \<le> pow2 53" by (simp add: p53)
    then have "of_int m * pow2 q \<le> pow2 53 * pow2 q"
      using qpos by (simp add: mult_right_mono)
    also have "\<dots> = pow2 (53 + q)" by (simp add: pow2_add)
    also have "\<dots> \<le> pow2 1023" using q(1) by (intro pow2_mono) simp
    also have "\<dots> < pow2 1024"
      using pow2_add [of 1023 1] pow2_pos [of 1023] by (simp add: pow2_numerals)
    finally have "\<not> pow2 1024 \<le> of_int m * pow2 q" by simp
    with True show ?thesis by simp
  next
    case False
    then have q: "q = e - 52" by (simp add: q_def)
    have "pow2 52 = pow2 e / pow2 q"
      using pow2_add [of 52 q] qpos by (simp add: q field_simps)
    also have "\<dots> \<le> x / pow2 q" using lo qpos by (simp add: divide_right_mono)
    finally have "(of_int (2 ^ 52) :: rat) \<le> x / pow2 q" by (simp add: p52)
    then have "2 ^ 52 \<le> \<lfloor>x / pow2 q\<rfloor>" by (simp only: le_floor_iff)
    then have m52: "2 ^ 52 \<le> m"
      unfolding m_def using round_half_even_floor [of "x / pow2 q"] by (rule order_trans)
    show ?thesis
    proof (cases "e = 1023")
      case True
      then have q971: "q = 971" by (simp add: q)
      have split: "pow2 1024 = of_int (2 ^ 53) * pow2 971"
        using pow2_add [of 53 971] by (simp add: p53)
      have "pow2 1024 \<le> of_int m * pow2 971 \<longleftrightarrow> (of_int (2 ^ 53) :: rat) \<le> of_int m"
        unfolding split using pow2_pos [of 971] by (simp only: mult_le_cancel_right_pos)
      also have "\<dots> \<longleftrightarrow> 2 ^ 53 \<le> m" by (simp only: of_int_le_iff)
      finally show ?thesis using True by (simp add: q971)
    next
      case False
      with \<open>\<not> e \<le> 1022\<close> have big: "1024 \<le> e" by simp
      from m52 have "(of_int (2 ^ 52) :: rat) \<le> of_int m" by (simp only: of_int_le_iff)
      then have "pow2 52 * pow2 q \<le> of_int m * pow2 q"
        using qpos by (simp add: p52 mult_right_mono)
      moreover have "pow2 52 * pow2 q = pow2 e"
        using pow2_add [of 52 q] by (simp add: q)
      moreover have "pow2 1024 \<le> pow2 e" using big by (rule pow2_mono)
      ultimately have "pow2 1024 \<le> of_int m * pow2 q" by simp
      with big show ?thesis by simp
    qed
  qed
qed

text \<open>
  Claim C3. On bounded profiles \<^verbatim>\<open>calculate_damage\<close> returns a result, and whatever it
  returns, for any value of the accuracy roll: with a power and stats that are not negative
  the damage is a non-negative integer, and when the effectiveness multiplier is 0 the
  damage is 0 and the hit is not flagged as missed.
\<close>

theorem damage_nonneg_immune_zero:
  "(bounded_stats ast \<and> bounded_stats dst \<and> bounded_move md \<and> length dts \<le> 2 \<longrightarrow>
      (\<exists>res. calculate_damage ft ast dst dts md r = Inr res)) \<and>
   (calculate_damage ft ast dst dts md r = Inr (d, e, m) \<longrightarrow>
      (valid_move md \<and> valid_stats ast \<and> valid_stats dst \<longrightarrow> 0 \<le> d) \<and>
      (float_eq e (Finite 0) \<longrightarrow> d = 0 \<and> \<not> m))"
  using calculate_damage_returns [of ast dst md dts ft r]
    calculate_damage_nonneg [of md ast dst ft dts r d e m]
    calculate_damage_immune [of ft ast dst dts md r d e m]
  by blast

theorem damage_nonneg_immune_zero_witness:
  "bounded_stats (ex_stats 60 80 70 50) \<and> bounded_stats (ex_stats 60 65 60 110) \<and>
   bounded_move (ex_move ''tackle'' (Some 40) (Some 100) ''normal'') \<and>
   length [''ghost'', ''poison''] \<le> (2::nat) \<and>
   calculate_damage ex_types (ex_stats 60 80 70 50) (ex_stats 60 65 60 110) [''ghost'', ''poison'']
     (ex_move ''tackle'' (Some 40) (Some 100) ''normal'') 0 = Inr (0, Finite 0, False) \<and>
   valid_move (ex_move ''tackle'' (Some 40) (Some 100) ''normal'') \<and>
   valid_stats (ex_stats 60 80 70 50) \<and> valid_stats (ex_stats 60 65 60 110) \<and>
   float_eq (Finite 0) (Finite 0) \<and> (0::int) \<le> 0 \<and> \<not> False"
proof -
  have ev: "calculate_damage ex_types (ex_stats 60 80 70 50) (ex_stats 60 65 60 110)
     [''ghost'', ''poison''] (ex_move ''tackle'' (Some 40) (Some 100) ''normal'') 0
     = Inr (0, Finite 0, False)"
    by code_simp
  have v: "valid_move (ex_move ''tackle'' (Some 40) (Some 100) ''normal'')"
    "valid_stats (ex_stats 60 80 70 50)" "valid_stats (ex_stats 60 65 60 110)"
    "bounded_stats (ex_stats 60 80 70 50)" "bounded_stats (ex_stats 60 65 60 110)"
    "bounded_move (ex_move ''tackle'' (Some 40) (Some 100) ''normal'')"
    by (simp_all add: valid_move_def valid_stats_def bounded_stats_def bounded_move_def
        ex_move_def ex_stats_def)
  from damage_nonneg_immune_zero
    [of "ex_stats 60 80 70 50" "ex_stats 60 65 60 110"
      "ex_move ''tackle'' (Some 40) (Some 100) ''normal''" "[''ghost'', ''poison'']"
      ex_types 0 0 "Finite 0" False]
    ev v
  show ?thesis by simp
qed

end
